theory Spec2Isabelle
  imports Main "HOL-Library.Word"
begin

unbundle bit_operations_syntax

section \<open>The shared-memory substrate of hh\_shared.c\<close>

text \<open>
  A shallow embedding of the dependency table and of the value store of
  \<^verbatim>\<open>src/hack/heap/hh_shared.c\<close>, executed by one process at a time.

  Conventions.
  \<^item> C unsigned integers are words of their width; addresses are natural numbers.
  \<^item> Every function returns a pair: the outcome (\<open>Inl\<close> an error, \<open>Inr\<close> the
    returned value) and the shared memory it leaves behind.  An OCaml exception or a
    failed assertion unwinds the C stack but keeps what was already written to the shared
    region, so the state component is meaningful also next to \<open>Inl\<close>.
  \<^item> A compare-and-swap whose expected value was read from the same word just before,
    with no other process running, succeeds; the model performs the write.  The branches
    the source takes after a lost race are therefore absent.
  \<^item> A probing loop that has looked at every slot without leaving can never leave, since
    nothing else changes the table: the model gives each such loop as many steps as the
    table has slots and reports \<open>Nontermination\<close> when they are used up.
\<close>

type_synonym u64 = "64 word"
type_synonym u32 = "32 word"
type_synonym byte = "8 word"

datatype error =
    WorkerShouldExit
  | DepTableFull
  | HashTableFull
  | HeapFull
  | OutOfSharedMemory
  | AssertionFailure
  | Failure string
  | Segfault
  | Nontermination
  | UndefinedConversion

type_synonym ('a, 's) result = "(error + 'a) \<times> 's"

subsection \<open>Control words\<close>

text \<open>
  \<^verbatim>\<open>workers_should_exit\<close>, \<^verbatim>\<open>allow_removes\<close> and \<^verbatim>\<open>master_pid\<close> live in the
  control page; \<^verbatim>\<open>worker_can_exit\<close>, \<^verbatim>\<open>my_pid\<close> and
  \<^verbatim>\<open>allow_hashtable_writes_by_current_process\<close> are per-process statics.
\<close>

record ctl =
  workers_should_exit :: u64
  worker_can_exit :: u64
  master_pid :: int
  my_pid :: int
  allow_removes :: u64
  allow_hashtable_writes_by_current_process :: u64

definition check_should_exit :: "'a ctl_scheme \<Rightarrow> error + unit" where
  "check_should_exit s =
     (if worker_can_exit s \<noteq> 0 \<and> workers_should_exit s \<noteq> 0
      then Inl WorkerShouldExit else Inr ())"

definition assert_master :: "'a ctl_scheme \<Rightarrow> error + unit" where
  "assert_master s = (if my_pid s = master_pid s then Inr () else Inl AssertionFailure)"

definition assert_allow_removes :: "'a ctl_scheme \<Rightarrow> error + unit" where
  "assert_allow_removes s = (if allow_removes s \<noteq> 0 then Inr () else Inl AssertionFailure)"

subsection \<open>Dependency table: data\<close>

text \<open>
  \<^verbatim>\<open>tagged_uint_t\<close> is a 31-bit number and a tag bit; \<^verbatim>\<open>deptbl_entry_t\<close> is the
  union of two of them with a raw 64-bit word.  The union has no padding, so the raw word
  is zero exactly when all four fields are, and two raw words are equal exactly when the
  fields are: the model compares the fields.
\<close>

record tagged_uint_t =
  num :: "31 word"
  tag :: "1 word"

record deptbl_entry_t =
  key :: tagged_uint_t
  "next" :: tagged_uint_t

definition TAG_VAL :: "1 word" where "TAG_VAL = 0"
definition TAG_KEY :: "1 word" where "TAG_KEY = 1"
definition TAG_NEXT :: "1 word" where "TAG_NEXT = 1"

definition raw_zero :: deptbl_entry_t where
  "raw_zero = \<lparr>key = \<lparr>num = 0, tag = 0\<rparr>, next = \<lparr>num = 0, tag = 0\<rparr>\<rparr>"

record deps = ctl +
  dep_table_pow :: nat
  deptbl :: "nat \<Rightarrow> deptbl_entry_t"
  deptbl_bindings :: "nat \<Rightarrow> u64"
  dcounter :: u64

text \<open>\<^verbatim>\<open>set_sizes\<close>: \<^verbatim>\<open>dep_size = 1ul << config_dep_table_pow\<close>.\<close>

definition dep_size :: "deps \<Rightarrow> u64" where
  "dep_size s = push_bit (dep_table_pow s) 1"

subsection \<open>Hashing\<close>

definition bswap64 :: "u64 \<Rightarrow> u64" where
  "bswap64 x =
     push_bit 56 (x AND 0xFF) OR
     push_bit 40 (x AND 0xFF00) OR
     push_bit 24 (x AND 0xFF0000) OR
     push_bit 8 (x AND 0xFF000000) OR
     drop_bit 8 (x AND 0xFF00000000) OR
     drop_bit 24 (x AND 0xFF0000000000) OR
     drop_bit 40 (x AND 0xFF000000000000) OR
     drop_bit 56 (x AND 0xFF00000000000000)"

definition hash_uint64 :: "u64 \<Rightarrow> u64" where
  "hash_uint64 n = bswap64 (n * 0x9e3779b97f4a7c15)"

subsection \<open>Dependency table: the bindings filter\<close>

text \<open>
  The loop of \<^verbatim>\<open>add_binding\<close>.  The first argument counts the slots still to be
  looked at.
\<close>

fun add_binding_loop :: "nat \<Rightarrow> u64 \<Rightarrow> u64 \<Rightarrow> deps \<Rightarrow> (int, deps) result" where
  "add_binding_loop 0 v slot s = (Inl Nontermination, s)"
| "add_binding_loop (Suc n) v slot s =
     (let slot_val = deptbl_bindings s (unat slot) in
      if slot_val = v then (Inr 0, s)
      else if dcounter s \<ge> dep_size s then (Inl DepTableFull, s)
      else if slot_val = 0 then
        (let size = dcounter s;
             s' = s\<lparr>deptbl_bindings := (deptbl_bindings s)(unat slot := v),
                    dcounter := dcounter s + 1\<rparr>
         in if size \<le> dep_size s then (Inr 1, s') else (Inl AssertionFailure, s'))
      else add_binding_loop n v ((slot + 1) AND (dep_size s - 1)) s)"

definition add_binding :: "u64 \<Rightarrow> deps \<Rightarrow> (int, deps) result" where
  "add_binding v s =
     add_binding_loop (unat (dep_size s)) v (hash_uint64 v AND (dep_size s - 1)) s"

subsection \<open>Dependency table: the adjacency lists\<close>

text \<open>
  \<^verbatim>\<open>alloc_deptbl_node\<close>: the slot counter is a \<^verbatim>\<open>uint32_t\<close>.  On success the
  result is the slot number.
\<close>

fun alloc_deptbl_node_loop :: "nat \<Rightarrow> u32 \<Rightarrow> u32 \<Rightarrow> deps \<Rightarrow> (u32, deps) result" where
  "alloc_deptbl_node_loop 0 val slot0 s = (Inl Nontermination, s)"
| "alloc_deptbl_node_loop (Suc n) val slot0 s =
     (let slot = (ucast (ucast slot0 AND (dep_size s - 1)) :: u32);
          list_node = \<lparr>key = \<lparr>num = ucast val, tag = TAG_VAL\<rparr>,
                       next = \<lparr>num = -1, tag = TAG_NEXT\<rparr>\<rparr>
      in if deptbl s (unat slot) = raw_zero
         then (Inr slot, s\<lparr>deptbl := (deptbl s)(unat slot := list_node)\<rparr>)
         else alloc_deptbl_node_loop n val (slot + 1) s)"

definition alloc_deptbl_node :: "u32 \<Rightarrow> u32 \<Rightarrow> deps \<Rightarrow> (u32, deps) result" where
  "alloc_deptbl_node k val s =
     (let start_hint = hash_uint64 (push_bit 31 (ucast k) OR ucast val)
      in alloc_deptbl_node_loop (unat (dep_size s)) val (ucast start_hint) s)"

text \<open>\<^verbatim>\<open>prepend_to_deptbl_list\<close>.\<close>

fun prepend_loop :: "nat \<Rightarrow> u32 \<Rightarrow> u32 \<Rightarrow> u64 \<Rightarrow> deps \<Rightarrow> (unit, deps) result" where
  "prepend_loop 0 k val slot0 s = (Inl Nontermination, s)"
| "prepend_loop (Suc n) k val slot0 s =
     (let slot = slot0 AND (dep_size s - 1);
          slotval = deptbl s (unat slot)
      in if slotval = raw_zero then
           (let head = \<lparr>key = \<lparr>num = ucast k, tag = TAG_KEY\<rparr>,
                        next = \<lparr>num = ucast val, tag = TAG_VAL\<rparr>\<rparr>
            in (Inr (), s\<lparr>deptbl := (deptbl s)(unat slot := head)\<rparr>))
         else if (ucast (num (key slotval)) :: u32) = k \<and> tag (key slotval) = TAG_KEY then
           (case alloc_deptbl_node k val s of
              (Inl e, s1) \<Rightarrow> (Inl e, s1)
            | (Inr list_slot, s1) \<Rightarrow>
                (let head = \<lparr>key = \<lparr>num = ucast k, tag = TAG_KEY\<rparr>,
                             next = \<lparr>num = ucast list_slot, tag = TAG_NEXT\<rparr>\<rparr>;
                     node = deptbl s1 (unat list_slot);
                     t1 = (deptbl s1)(unat list_slot := node\<lparr>next := next slotval\<rparr>);
                     t2 = t1(unat slot := head)
                 in (Inr (), s1\<lparr>deptbl := t2\<rparr>)))
         else prepend_loop n k val (slot + 1) s)"

definition prepend_to_deptbl_list :: "u32 \<Rightarrow> u32 \<Rightarrow> deps \<Rightarrow> (unit, deps) result" where
  "prepend_to_deptbl_list k val s =
     prepend_loop (unat (dep_size s)) k val (hash_uint64 (ucast k)) s"

text \<open>\<^verbatim>\<open>add_dep\<close>: the public \<open>add_edge\<close>.\<close>

definition add_dep :: "u32 \<Rightarrow> u32 \<Rightarrow> deps \<Rightarrow> (unit, deps) result" where
  "add_dep k val s =
     (if \<not> (k < 0x80000000 \<and> val < 0x80000000) then (Inl AssertionFailure, s)
      else case add_binding (push_bit 31 (ucast k) OR ucast val) s of
             (Inl e, s1) \<Rightarrow> (Inl e, s1)
           | (Inr r, s1) \<Rightarrow> if r \<noteq> 0 then prepend_to_deptbl_list k val s1 else (Inr (), s1))"

text \<open>
  \<^verbatim>\<open>hh_get_dep\<close>: the public \<open>get_edges\<close>.  The inner loop walks the list; it is given
  one step more than the table has slots, since a longer walk has entered a cycle.
\<close>

fun get_dep_walk :: "nat \<Rightarrow> deptbl_entry_t \<Rightarrow> nat list \<Rightarrow> deps \<Rightarrow> error + nat list" where
  "get_dep_walk 0 slotval acc s =
     (if tag (next slotval) = TAG_NEXT then Inl Nontermination
      else Inr (unat (num (next slotval)) # acc))"
| "get_dep_walk (Suc n) slotval acc s =
     (if tag (next slotval) = TAG_NEXT then
        (if \<not> ((ucast (num (next slotval)) :: u64) < dep_size s) then Inl AssertionFailure
         else (let slotval' = deptbl s (unat (num (next slotval)))
               in get_dep_walk n slotval' (unat (num (key slotval')) # acc) s))
      else Inr (unat (num (next slotval)) # acc))"

fun get_dep_loop :: "nat \<Rightarrow> u32 \<Rightarrow> u64 \<Rightarrow> deps \<Rightarrow> error + nat list" where
  "get_dep_loop 0 k slot0 s = Inl Nontermination"
| "get_dep_loop (Suc n) k slot0 s =
     (let slot = slot0 AND (dep_size s - 1);
          slotval = deptbl s (unat slot)
      in if slotval = raw_zero then Inr []
         else if (ucast (num (key slotval)) :: u32) = k \<and> tag (key slotval) = TAG_KEY
         then get_dep_walk (Suc (unat (dep_size s))) slotval [] s
         else get_dep_loop n k (slot + 1) s)"

definition hh_get_dep :: "u64 \<Rightarrow> deps \<Rightarrow> (nat list, deps) result" where
  "hh_get_dep key64 s =
     (case check_should_exit s of
        Inl e \<Rightarrow> (Inl e, s)
      | Inr _ \<Rightarrow>
          (let k = (ucast key64 :: u32)
           in if (ucast (k AND 0x7FFFFFFF) :: u64) \<noteq> key64 then (Inl AssertionFailure, s)
              else (get_dep_loop (unat (dep_size s)) k (hash_uint64 (ucast k)) s, s)))"

text \<open>\<^verbatim>\<open>kill_dep_used_slots\<close>: both tables are cleared, the counter is not.\<close>

definition kill_dep_used_slots :: "deps \<Rightarrow> deps" where
  "kill_dep_used_slots s =
     s\<lparr>deptbl := (\<lambda>i. if i < unat (dep_size s) then raw_zero else deptbl s i),
       deptbl_bindings := (\<lambda>i. if i < unat (dep_size s) then 0 else deptbl_bindings s i)\<rparr>"

text \<open>The region as \<^verbatim>\<open>init_shared_globals\<close> leaves it, for a table of \<open>2 ^ p\<close> slots.\<close>

definition init_deps :: "nat \<Rightarrow> deps" where
  "init_deps p =
     \<lparr>workers_should_exit = 0, worker_can_exit = 1, master_pid = 1, my_pid = 1,
      allow_removes = 1, allow_hashtable_writes_by_current_process = 1,
      dep_table_pow = p, deptbl = (\<lambda>_. raw_zero), deptbl_bindings = (\<lambda>_. 0), dcounter = 0\<rparr>"


subsection \<open>Dependency table: saving to the database\<close>

text \<open>
  The SQLite database is an external collaborator: its calls are taken to succeed, and a
  database is the header row and the map from a key vertex to its blob of values.
\<close>

record db =
  db_header :: "(u64 \<times> string) option"
  db_rows :: "nat \<Rightarrow> nat list option"

definition MAGIC_CONSTANT :: u64 where
  "MAGIC_CONSTANT = 0xfacefacefaceb000"

definition write_sqlite_header :: "db \<Rightarrow> string \<Rightarrow> db" where
  "write_sqlite_header d buildInfo = d\<lparr>db_header := Some (MAGIC_CONSTANT, buildInfo)\<rparr>"

fun count_walk :: "nat \<Rightarrow> deptbl_entry_t \<Rightarrow> nat \<Rightarrow> deps \<Rightarrow> error + nat" where
  "count_walk 0 slotval count s =
     (if tag (next slotval) = TAG_NEXT then Inl Nontermination else Inr (count + 1))"
| "count_walk (Suc n) slotval count s =
     (if tag (next slotval) = TAG_NEXT then
        (if \<not> ((ucast (num (next slotval)) :: u64) < dep_size s) then Inl AssertionFailure
         else count_walk n (deptbl s (unat (num (next slotval)))) (count + 1) s)
      else Inr (count + 1))"

definition deptbl_entry_count_for_slot :: "nat \<Rightarrow> deps \<Rightarrow> error + nat" where
  "deptbl_entry_count_for_slot slot s =
     (if \<not> slot < unat (dep_size s) then Inl AssertionFailure
      else (let slotval = deptbl s slot
            in if slotval \<noteq> raw_zero \<and> tag (key slotval) = TAG_KEY
               then count_walk (Suc (unat (dep_size s))) slotval 0 s
               else Inr 0))"

text \<open>The values of one list, in the order \<^verbatim>\<open>values[iter]\<close> receives them.\<close>

fun values_walk :: "nat \<Rightarrow> deptbl_entry_t \<Rightarrow> nat list \<Rightarrow> deps \<Rightarrow> error + nat list" where
  "values_walk 0 slotval vals s =
     (if tag (next slotval) = TAG_NEXT then Inl Nontermination
      else Inr (vals @ [unat (num (next slotval))]))"
| "values_walk (Suc n) slotval vals s =
     (if tag (next slotval) = TAG_NEXT then
        (if \<not> ((ucast (num (next slotval)) :: u64) < dep_size s) then Inl AssertionFailure
         else (let slotval' = deptbl s (unat (num (next slotval)))
               in values_walk n slotval' (vals @ [unat (num (key slotval'))]) s))
      else Inr (vals @ [unat (num (next slotval))]))"

text \<open>
  The loop over all slots of \<^verbatim>\<open>hh_save_dep_table_helper\<close>; \<open>edges_added\<close> is a
  \<^verbatim>\<open>size_t\<close>.
\<close>

fun save_slots :: "nat list \<Rightarrow> bool \<Rightarrow> db \<Rightarrow> u64 \<Rightarrow> deps \<Rightarrow> error + (db \<times> u64)" where
  "save_slots [] is_update d edges_added s = Inr (d, edges_added)"
| "save_slots (slot # rest) is_update d edges_added s =
     (case deptbl_entry_count_for_slot slot s of
        Inl e \<Rightarrow> Inl e
      | Inr count \<Rightarrow>
          if count = 0 then save_slots rest is_update d edges_added s
          else
            (let slotval = deptbl s slot;
                 existing = (if is_update
                             then (case db_rows d (unat (num (key slotval))) of
                                     None \<Rightarrow> [] | Some blob \<Rightarrow> blob)
                             else []);
                 existing_count = length existing
             in if slotval \<noteq> raw_zero \<and> tag (key slotval) = TAG_KEY then
                  (case values_walk (Suc (unat (dep_size s))) slotval [] s of
                     Inl e \<Rightarrow> Inl e
                   | Inr vals \<Rightarrow>
                       (let values = vals @ existing;
                            d' = d\<lparr>db_rows := (db_rows d)(unat (num (key slotval)) \<mapsto> values)\<rparr>
                        in save_slots rest is_update d'
                             (edges_added + (of_nat (length values) - of_nat existing_count)) s))
                else save_slots rest is_update d
                       (edges_added + (0 - of_nat existing_count)) s))"

text \<open>
  \<^verbatim>\<open>hh_swap_in_db\<close> replaces the process-local database handle, which the model returns
  to the caller, and clears the in-memory tables.
\<close>

definition hh_swap_in_db :: "deps \<Rightarrow> deps" where
  "hh_swap_in_db s = kill_dep_used_slots s"

definition hh_save_dep_table_helper ::
  "db \<Rightarrow> string \<Rightarrow> u64 \<Rightarrow> bool \<Rightarrow> deps \<Rightarrow> (u64 \<times> db, deps) result" where
  "hh_save_dep_table_helper db_out build_info replace_state_after_saving is_update s =
     (case save_slots [0..<unat (dep_size s)] is_update
             (write_sqlite_header db_out build_info) 0 s of
        Inl e \<Rightarrow> (Inl e, s)
      | Inr (d, edges_added) \<Rightarrow>
          if replace_state_after_saving \<noteq> 0
          then (Inr (edges_added, d), hh_swap_in_db s)
          else (Inr (edges_added, d), s))"

subsection \<open>Dependency table: when an edge counts as present\<close>

text \<open>
  An edge is present in the filter when the probe that starts at its home slot meets its
  combined word before it meets an empty slot.
\<close>

fun binding_reachable :: "nat \<Rightarrow> u64 \<Rightarrow> u64 \<Rightarrow> deps \<Rightarrow> bool" where
  "binding_reachable 0 v slot s = False"
| "binding_reachable (Suc n) v slot s =
     (deptbl_bindings s (unat slot) = v \<or>
      (deptbl_bindings s (unat slot) \<noteq> 0 \<and>
       binding_reachable n v ((slot + 1) AND (dep_size s - 1)) s))"

definition binding_present :: "u64 \<Rightarrow> deps \<Rightarrow> bool" where
  "binding_present v s =
     binding_reachable (unat (dep_size s)) v (hash_uint64 v AND (dep_size s - 1)) s"

text \<open>
  A table of two slots after \<open>add_edge(1,2); add_edge(1,3)\<close>: both combined words hash to
  slot 0, so the second one sits in slot 1 and the table is full.
\<close>

definition two_edges :: deps where
  "two_edges = snd (add_dep 1 3 (snd (add_dep 1 2 (init_deps 1))))"


section \<open>The value store\<close>

subsection \<open>Data\<close>

record helt_t =
  hash :: u64
  addr :: u64

definition HASHTBL_WRITE_IN_PROGRESS :: u64 where
  "HASHTBL_WRITE_IN_PROGRESS = 1"

text \<open>
  The hashtable is kept apart from the bytes of the heap; \<open>heap\<close> is the word
  \<^verbatim>\<open>*heap\<close>, the address of the next free byte.  \<^verbatim>\<open>removed_count\<close> is a static of the
  process.
\<close>

record store = ctl +
  hash_table_pow :: nat
  hashtbl :: "nat \<Rightarrow> helt_t"
  hcounter :: u64
  heap :: nat
  heap_init :: nat
  heap_max :: nat
  wasted_heap_size :: u64
  mem :: "nat \<Rightarrow> byte"
  removed_count :: int

text \<open>\<^verbatim>\<open>set_sizes\<close>: \<^verbatim>\<open>hashtbl_size = 1ul << config_hash_table_pow\<close>.\<close>

definition hashtbl_size :: "store \<Rightarrow> u64" where
  "hashtbl_size s = push_bit (hash_table_pow s) 1"




subsection \<open>Externals\<close>

text \<open>
  What the file calls and does not define.  An OCaml value is a string or something
  else; \<^verbatim>\<open>LZ4_compress_default\<close> gives the bytes it wrote (none when it returns 0),
  \<^verbatim>\<open>LZ4_decompress_safe\<close> the bytes it produced or \<open>None\<close> for a negative result.
\<close>

datatype 'v ocaml_value = OString "byte list" | OBlock 'v

record 'v ext =
  LZ4_compressBound :: "nat \<Rightarrow> nat"
  LZ4_compress_default :: "byte list \<Rightarrow> nat \<Rightarrow> byte list"
  LZ4_decompress_safe :: "byte list \<Rightarrow> nat \<Rightarrow> byte list option"
  caml_output_value_to_malloc :: "'v \<Rightarrow> byte list"
  caml_input_value_from_block :: "byte list \<Rightarrow> 'v ocaml_value"
  memfd_reserve_ok :: "nat \<Rightarrow> nat \<Rightarrow> bool"

subsection \<open>Memory\<close>

text \<open>64-bit loads and stores are little-endian.\<close>

definition load64 :: "(nat \<Rightarrow> byte) \<Rightarrow> nat \<Rightarrow> u64" where
  "load64 m a = foldr (\<lambda>b acc. ucast b OR push_bit 8 acc) (map m [a..<a + 8]) 0"

definition store64 :: "(nat \<Rightarrow> byte) \<Rightarrow> nat \<Rightarrow> u64 \<Rightarrow> (nat \<Rightarrow> byte)" where
  "store64 m a w = (\<lambda>x. if a \<le> x \<and> x < a + 8 then ucast (drop_bit (8 * (x - a)) w) else m x)"

definition load_bytes :: "(nat \<Rightarrow> byte) \<Rightarrow> nat \<Rightarrow> nat \<Rightarrow> byte list" where
  "load_bytes m a n = map m [a..<a + n]"

definition memcpy :: "(nat \<Rightarrow> byte) \<Rightarrow> nat \<Rightarrow> byte list \<Rightarrow> nat \<Rightarrow> (nat \<Rightarrow> byte)" where
  "memcpy m dst src n = (\<lambda>x. if dst \<le> x \<and> x < dst + n then src ! (x - dst) else m x)"

definition memmove :: "(nat \<Rightarrow> byte) \<Rightarrow> nat \<Rightarrow> nat \<Rightarrow> nat \<Rightarrow> (nat \<Rightarrow> byte)" where
  "memmove m dst src n = (\<lambda>x. if dst \<le> x \<and> x < dst + n then m (src + (x - dst)) else m x)"

subsection \<open>Heap entries\<close>

definition Entry_size :: "u64 \<Rightarrow> u64" where
  "Entry_size x = drop_bit 33 x"

definition Entry_kind :: "u64 \<Rightarrow> u64" where
  "Entry_kind x = drop_bit 32 x AND 1"

definition Entry_uncompressed_size :: "u64 \<Rightarrow> u64" where
  "Entry_uncompressed_size x = drop_bit 1 x AND 0x7FFFFFFF"

definition Heap_entry_total_size :: "u64 \<Rightarrow> u64" where
  "Heap_entry_total_size header = 8 + Entry_size header"

definition ALIGNED :: "u64 \<Rightarrow> u64" where
  "ALIGNED x = (x + 64 - 1) AND NOT (64 - 1)"

definition KIND_STRING :: u64 where "KIND_STRING = 1"
definition KIND_SERIALIZED :: u64 where "KIND_SERIALIZED = 0"

definition used_heap_size :: "store \<Rightarrow> u64" where
  "used_heap_size s = of_nat (heap s) - of_nat (heap_init s)"

definition get_wasted_heap_size :: "store \<Rightarrow> u64" where
  "get_wasted_heap_size s = wasted_heap_size s"

subsection \<open>Allocation and storing\<close>

definition hh_alloc :: "'v ext \<Rightarrow> u64 \<Rightarrow> store \<Rightarrow> (nat, store) result" where
  "hh_alloc ext header s =
     (let slot_size = unat (ALIGNED (Heap_entry_total_size header));
          chunk = heap s;
          s1 = s\<lparr>heap := heap s + slot_size\<rparr>
      in if chunk + slot_size > heap_max s then (Inl HeapFull, s1)
         else if \<not> memfd_reserve_ok ext chunk slot_size then (Inl OutOfSharedMemory, s1)
         else (Inr chunk, s1\<lparr>mem := store64 (mem s1) chunk header\<rparr>))"

text \<open>The result is the address of the entry, \<^verbatim>\<open>*alloc_size\<close> and \<^verbatim>\<open>*orig_size\<close>.\<close>

definition hh_store_ocaml ::
  "'v ext \<Rightarrow> 'v ocaml_value \<Rightarrow> store \<Rightarrow> (nat \<times> nat \<times> nat, store) result" where
  "hh_store_ocaml ext data s =
     (let (val, kind) = (case data of
                           OString b \<Rightarrow> (b, KIND_STRING)
                         | OBlock v \<Rightarrow> (caml_output_value_to_malloc ext v, KIND_SERIALIZED));
          size = length val
      in if \<not> size < 0x80000000 then (Inl AssertionFailure, s)
         else
           (let orig_size = size;
                max_compression_size = LZ4_compressBound ext size;
                compressed_data = LZ4_compress_default ext val max_compression_size;
                compressed_size = length compressed_data;
                (uncompressed_size, size) =
                   (if compressed_size \<noteq> 0 \<and> compressed_size < size
                    then (size, compressed_size) else (0, size));
                alloc_size = size;
                header = push_bit 33 (of_nat size) OR push_bit 32 kind OR
                         push_bit 1 (of_nat uncompressed_size) OR 1
            in case hh_alloc ext header s of
                 (Inl e, s1) \<Rightarrow> (Inl e, s1)
               | (Inr a, s1) \<Rightarrow>
                   (Inr (a, alloc_size, orig_size),
                    s1\<lparr>mem := memcpy (mem s1) (a + 8)
                                 (if uncompressed_size \<noteq> 0 then compressed_data else val)
                                 size\<rparr>)))"

definition get_hash :: "byte list \<Rightarrow> u64" where
  "get_hash k = foldr (\<lambda>b acc. ucast b OR push_bit 8 acc) (take 8 k) 0"

text \<open>\<^verbatim>\<open>Min_long\<close> of the OCaml runtime on a 64-bit machine.\<close>

definition Min_long :: int where
  "Min_long = - (2 ^ 62)"

definition write_at ::
  "'v ext \<Rightarrow> nat \<Rightarrow> 'v ocaml_value \<Rightarrow> store \<Rightarrow> (int \<times> int, store) result" where
  "write_at ext slot data s =
     (if addr (hashtbl s slot) = 0 then
        (let s1 = s\<lparr>hashtbl := (hashtbl s)
                      (slot := (hashtbl s slot)\<lparr>addr := HASHTBL_WRITE_IN_PROGRESS\<rparr>)\<rparr>
         in if allow_hashtable_writes_by_current_process s1 = 0 then (Inl AssertionFailure, s1)
            else case hh_store_ocaml ext data s1 of
                   (Inl e, s2) \<Rightarrow> (Inl e, s2)
                 | (Inr (a, alloc_size, orig_size), s2) \<Rightarrow>
                     (Inr (int alloc_size, int orig_size),
                      s2\<lparr>hashtbl := (hashtbl s2)
                            (slot := (hashtbl s2 slot)\<lparr>addr := of_nat a\<rparr>)\<rparr>))
      else (Inr (Min_long, Min_long), s))"

text \<open>
  Slot numbers of the value store are \<^verbatim>\<open>unsigned int\<close>: the increment wraps at
  \<open>2 ^ 32\<close> before the mask is applied.
\<close>

definition next_slot :: "store \<Rightarrow> u32 \<Rightarrow> u32" where
  "next_slot s slot = ucast ((ucast (slot + 1) :: u64) AND (hashtbl_size s - 1))"

fun hh_add_loop ::
  "nat \<Rightarrow> 'v ext \<Rightarrow> u64 \<Rightarrow> 'v ocaml_value \<Rightarrow> u32 \<Rightarrow> u32 \<Rightarrow> store \<Rightarrow> (int \<times> int, store) result"
  where
  "hh_add_loop 0 ext h data init_slot slot s = (Inl Nontermination, s)"
| "hh_add_loop (Suc n) ext h data init_slot slot s =
     (let slot_hash = hash (hashtbl s (unat slot))
      in if slot_hash = h then write_at ext (unat slot) data s
         else if hcounter s \<ge> hashtbl_size s then (Inl HashTableFull, s)
         else if slot_hash = 0 then
           (let size = hcounter s;
                s1 = s\<lparr>hashtbl := (hashtbl s)
                          (unat slot := (hashtbl s (unat slot))\<lparr>hash := h\<rparr>),
                       hcounter := hcounter s + 1\<rparr>
            in if \<not> size < hashtbl_size s then (Inl AssertionFailure, s1)
               else write_at ext (unat slot) data s1)
         else (let slot' = next_slot s slot
               in if slot' = init_slot then (Inl HashTableFull, s)
                  else hh_add_loop n ext h data init_slot slot' s))"

definition hh_add ::
  "'v ext \<Rightarrow> byte list \<Rightarrow> 'v ocaml_value \<Rightarrow> store \<Rightarrow> (int \<times> int, store) result" where
  "hh_add ext k data s =
     (case check_should_exit s of
        Inl e \<Rightarrow> (Inl e, s)
      | Inr _ \<Rightarrow>
          (let h = get_hash k;
               slot = (ucast (h AND (hashtbl_size s - 1)) :: u32)
           in hh_add_loop (unat (hashtbl_size s)) ext h data slot slot s))"

subsection \<open>Looking up\<close>

fun find_slot_loop :: "nat \<Rightarrow> u64 \<Rightarrow> u32 \<Rightarrow> u32 \<Rightarrow> store \<Rightarrow> error + u32" where
  "find_slot_loop 0 h init_slot slot s = Inl Nontermination"
| "find_slot_loop (Suc n) h init_slot slot s =
     (if hash (hashtbl s (unat slot)) = h then Inr slot
      else if hash (hashtbl s (unat slot)) = 0 then Inr slot
      else (let slot' = next_slot s slot
            in if slot' = init_slot then Inl HashTableFull
               else find_slot_loop n h init_slot slot' s))"

definition find_slot :: "byte list \<Rightarrow> store \<Rightarrow> error + u32" where
  "find_slot k s =
     (let h = get_hash k;
          slot = (ucast (h AND (hashtbl_size s - 1)) :: u32)
      in find_slot_loop (unat (hashtbl_size s)) h slot slot s)"

text \<open>
  \<^verbatim>\<open>hh_mem_inner\<close>.  With no other process running, a slot whose \<open>addr\<close> is the
  write-in-progress mark keeps it, and the busy-wait ends in the failure it raises after
  60 seconds.
\<close>

definition hh_mem_inner :: "byte list \<Rightarrow> store \<Rightarrow> (int, store) result" where
  "hh_mem_inner k s =
     (case check_should_exit s of
        Inl e \<Rightarrow> (Inl e, s)
      | Inr _ \<Rightarrow>
          (case find_slot k s of
             Inl e \<Rightarrow> (Inl e, s)
           | Inr slot \<Rightarrow>
               (let good_hash = (hash (hashtbl s (unat slot)) = get_hash k);
                    non_null_addr = (addr (hashtbl s (unat slot)) \<noteq> 0)
                in if good_hash \<and> non_null_addr then
                     (if addr (hashtbl s (unat slot)) = HASHTBL_WRITE_IN_PROGRESS
                      then (Inl (Failure ''hh_mem busy-wait loop stuck for 60s''), s)
                      else (Inr 1, s))
                   else if good_hash then (Inr (- 2), s)
                   else (Inr (- 1), s))))"

definition hh_mem_status :: "byte list \<Rightarrow> store \<Rightarrow> (int, store) result" where
  "hh_mem_status k s =
     (case hh_mem_inner k s of
        (Inl e, s1) \<Rightarrow> (Inl e, s1)
      | (Inr res, s1) \<Rightarrow>
          if res = 1 \<or> res = - 1 \<or> res = - 2 then (Inr res, s1)
          else (Inl (Failure ''Unreachable case: result must be 1 or -1 or -2''), s1))"

text \<open>
  \<^verbatim>\<open>hh_deserialize\<close>.  Reading through \<open>NULL\<close> or through the write-in-progress mark
  faults: both lie in the unmapped first page.
\<close>

definition hh_deserialize :: "'v ext \<Rightarrow> nat \<Rightarrow> store \<Rightarrow> error + 'v ocaml_value" where
  "hh_deserialize ext elt s =
     (if elt = 0 \<or> elt = 1 then Inl Segfault
      else
        (let header = load64 (mem s) elt;
             size = unat (Entry_size header);
             uncompressed_size_exp = unat (Entry_uncompressed_size header);
             src = load_bytes (mem s) (elt + 8) size;
             finish = (\<lambda>data. if Entry_kind header = KIND_STRING then Inr (OString data)
                              else Inr (caml_input_value_from_block ext data))
         in if uncompressed_size_exp \<noteq> 0 then
              (case LZ4_decompress_safe ext src uncompressed_size_exp of
                 None \<Rightarrow> Inl AssertionFailure
               | Some data \<Rightarrow>
                   if length data \<noteq> uncompressed_size_exp then Inl AssertionFailure
                   else finish data)
            else finish src))"

definition hh_get_and_deserialize ::
  "'v ext \<Rightarrow> byte list \<Rightarrow> store \<Rightarrow> ('v ocaml_value, store) result" where
  "hh_get_and_deserialize ext k s =
     (case check_should_exit s of
        Inl e \<Rightarrow> (Inl e, s)
      | Inr _ \<Rightarrow>
          (case find_slot k s of
             Inl e \<Rightarrow> (Inl e, s)
           | Inr slot \<Rightarrow>
               if hash (hashtbl s (unat slot)) \<noteq> get_hash k then (Inl AssertionFailure, s)
               else (hh_deserialize ext (unat (addr (hashtbl s (unat slot)))) s, s)))"

subsection \<open>Master-only operations\<close>

definition hh_move :: "byte list \<Rightarrow> byte list \<Rightarrow> store \<Rightarrow> (unit, store) result" where
  "hh_move key1 key2 s =
     (case find_slot key1 s of
        Inl e \<Rightarrow> (Inl e, s)
      | Inr slot1 \<Rightarrow>
     (case find_slot key2 s of
        Inl e \<Rightarrow> (Inl e, s)
      | Inr slot2 \<Rightarrow>
     (case assert_master s of
        Inl e \<Rightarrow> (Inl e, s)
      | Inr _ \<Rightarrow>
     (case assert_allow_removes s of
        Inl e \<Rightarrow> (Inl e, s)
      | Inr _ \<Rightarrow>
          if hash (hashtbl s (unat slot1)) \<noteq> get_hash key1 then (Inl AssertionFailure, s)
          else if addr (hashtbl s (unat slot2)) \<noteq> 0 then (Inl AssertionFailure, s)
          else
            (let c = (if hash (hashtbl s (unat slot2)) = 0 then hcounter s + 1 else hcounter s);
                 t1 = (hashtbl s)(unat slot2 := (hashtbl s (unat slot2))\<lparr>hash := get_hash key2\<rparr>);
                 t2 = t1(unat slot2 := (t1 (unat slot2))\<lparr>addr := addr (t1 (unat slot1))\<rparr>);
                 t3 = t2(unat slot1 := (t2 (unat slot1))\<lparr>addr := 0\<rparr>)
             in (Inr (), s\<lparr>hashtbl := t3, hcounter := c\<rparr>))))))"

definition hh_remove :: "byte list \<Rightarrow> store \<Rightarrow> (unit, store) result" where
  "hh_remove k s =
     (case find_slot k s of
        Inl e \<Rightarrow> (Inl e, s)
      | Inr slot \<Rightarrow>
     (case assert_master s of
        Inl e \<Rightarrow> (Inl e, s)
      | Inr _ \<Rightarrow>
     (case assert_allow_removes s of
        Inl e \<Rightarrow> (Inl e, s)
      | Inr _ \<Rightarrow>
          if hash (hashtbl s (unat slot)) \<noteq> get_hash k then (Inl AssertionFailure, s)
          else if addr (hashtbl s (unat slot)) = 0 \<or> addr (hashtbl s (unat slot)) = 1
          then (Inl Segfault, s)
          else
            (let slot_size = ALIGNED (Heap_entry_total_size
                               (load64 (mem s) (unat (addr (hashtbl s (unat slot))))))
             in (Inr (), s\<lparr>wasted_heap_size := wasted_heap_size s + slot_size,
                           hashtbl := (hashtbl s)
                             (unat slot := (hashtbl s (unat slot))\<lparr>addr := 0\<rparr>),
                           removed_count := removed_count s + 1\<rparr>)))))"

text \<open>
  \<^verbatim>\<open>hh_hash_used_slots\<close>: the pair of the filled and of the non-empty slots, after the
  assertion that the second number is \<open>hcounter\<close>.
\<close>

fun used_slots_loop :: "nat list \<Rightarrow> u64 \<Rightarrow> u64 \<Rightarrow> store \<Rightarrow> u64 \<times> u64" where
  "used_slots_loop [] filled_slots nonempty_slots s = (filled_slots, nonempty_slots)"
| "used_slots_loop (i # rest) filled_slots nonempty_slots s =
     (let nonempty_slots' = (if hash (hashtbl s i) \<noteq> 0 then nonempty_slots + 1
                             else nonempty_slots)
      in if addr (hashtbl s i) = 0 then used_slots_loop rest filled_slots nonempty_slots' s
         else used_slots_loop rest (filled_slots + 1) nonempty_slots' s)"

definition hh_hash_used_slots :: "store \<Rightarrow> error + (u64 \<times> u64)" where
  "hh_hash_used_slots s =
     (case used_slots_loop [0..<unat (hashtbl_size s)] 0 0 s of
        (filled_slots, nonempty_slots) \<Rightarrow>
          if nonempty_slots = hcounter s then Inr (filled_slots, nonempty_slots)
          else Inl AssertionFailure)"

subsection \<open>Single-precision arithmetic\<close>

text \<open>
  The C type \<^verbatim>\<open>float\<close> is IEEE 754 binary32 with rounding to nearest, ties to even.  Only
  finite numbers that are zero or at least 1 and far below the largest \<^verbatim>\<open>float\<close> occur in
  this file, so a number is kept as the pair of a significand and an exponent, standing
  for \<open>mant * 2 ^ expo\<close>; after rounding the significand is at most \<open>2 ^ 24\<close>.
\<close>

record float32 =
  mant :: nat
  expo :: int

text \<open>The number of binary digits of a natural number.\<close>

fun bit_length :: "nat \<Rightarrow> nat" where
  "bit_length n = (if n = 0 then 0 else Suc (bit_length (n div 2)))"

text \<open>\<open>n / 2 ^ e\<close> rounded to the nearest integer, a tie going to the even one.\<close>

definition round_nearest_even :: "nat \<Rightarrow> nat \<Rightarrow> nat" where
  "round_nearest_even n e =
     (let q = n div 2 ^ e;
          r = n mod 2 ^ e
      in if 2 * r > 2 ^ e then q + 1
         else if 2 * r = 2 ^ e \<and> odd q then q + 1
         else q)"

text \<open>The \<^verbatim>\<open>float\<close> nearest to \<open>n * 2 ^ x\<close>: 24 significant digits are kept.\<close>

definition float_round :: "nat \<Rightarrow> int \<Rightarrow> float32" where
  "float_round n x =
     (let e = bit_length n - 24
      in \<lparr>mant = round_nearest_even n e, expo = x + int e\<rparr>)"

text \<open>The conversion of a \<^verbatim>\<open>size_t\<close> to \<^verbatim>\<open>float\<close> and the product of two \<^verbatim>\<open>float\<close>s.\<close>

definition float_of_size_t :: "u64 \<Rightarrow> float32" where
  "float_of_size_t n = float_round (unat n) 0"

definition float_mul :: "float32 \<Rightarrow> float32 \<Rightarrow> float32" where
  "float_mul a b = float_round (mant a * mant b) (expo a + expo b)"

text \<open>
  The cast of a \<^verbatim>\<open>float\<close> to \<^verbatim>\<open>size_t\<close> drops the fraction; C leaves the cast undefined
  when the integral part does not fit.
\<close>

definition size_t_of_float :: "float32 \<Rightarrow> u64 option" where
  "size_t_of_float f =
     (let t = (if 0 \<le> expo f then mant f * 2 ^ nat (expo f)
               else mant f div 2 ^ nat (- expo f))
      in if t < 2 ^ 64 then Some (of_nat t) else None)"

text \<open>
  The constants \<^verbatim>\<open>2.0\<close> and \<^verbatim>\<open>1.2\<close> once stored in a \<^verbatim>\<open>float\<close>: the \<^verbatim>\<open>float\<close> nearest to
  1.2 is \<open>10066330 / 2 ^ 23\<close> (bits \<^verbatim>\<open>0x3F99999A\<close>).
\<close>

definition float_2_0 :: float32 where
  "float_2_0 = \<lparr>mant = 1, expo = 1\<rparr>"

definition float_1_2 :: float32 where
  "float_1_2 = \<lparr>mant = 10066330, expo = - 23\<rparr>"

subsection \<open>The collector\<close>

text \<open>
  \<^verbatim>\<open>should_collect\<close>.  \<^verbatim>\<open>space_overhead\<close> is a \<^verbatim>\<open>float\<close>, so \<^verbatim>\<open>reachable\<close> is converted to
  \<^verbatim>\<open>float\<close>, the product is a \<^verbatim>\<open>float\<close>, and the cast to \<^verbatim>\<open>size_t\<close> truncates it.
\<close>

definition should_collect :: "bool \<Rightarrow> store \<Rightarrow> error + bool" where
  "should_collect aggressive s =
     (let space_overhead = (if aggressive then float_1_2 else float_2_0);
          used = used_heap_size s;
          reachable = used - get_wasted_heap_size s
      in case size_t_of_float (float_mul space_overhead (float_of_size_t reachable)) of
           None \<Rightarrow> Inl UndefinedConversion
         | Some t \<Rightarrow> Inr (used \<ge> t))"




subsection \<open>A fresh region and stand-ins for the externals\<close>

text \<open>
  The value store as \<^verbatim>\<open>init_shared_globals\<close> leaves it, with \<open>2 ^ p\<close> slots and a
  heap of \<open>sz\<close> bytes at address \<open>base\<close>.
\<close>

definition init_store :: "nat \<Rightarrow> nat \<Rightarrow> nat \<Rightarrow> store" where
  "init_store p base sz =
     \<lparr>workers_should_exit = 0, worker_can_exit = 1, master_pid = 1, my_pid = 1,
      allow_removes = 1, allow_hashtable_writes_by_current_process = 1,
      hash_table_pow = p, hashtbl = (\<lambda>_. \<lparr>hash = 0, addr = 0\<rparr>), hcounter = 0,
      heap = base, heap_init = base, heap_max = base + sz, wasted_heap_size = 0,
      mem = (\<lambda>_. 0), removed_count = 0\<rparr>"

text \<open>
  Externals to run examples with: a codec that compresses the four zero bytes to one byte
  and refuses everything else, and a reservation that succeeds.
\<close>

definition ext0 :: "unit ext" where
  "ext0 = \<lparr>LZ4_compressBound = (\<lambda>n. n + n div 255 + 16),
           LZ4_compress_default = (\<lambda>b cap. if b = [0, 0, 0, 0] then [4] else []),
           LZ4_decompress_safe = (\<lambda>c cap. if c = [4] then Some [0, 0, 0, 0] else None),
           caml_output_value_to_malloc = (\<lambda>_. []),
           caml_input_value_from_block = (\<lambda>_. OBlock ()),
           memfd_reserve_ok = (\<lambda>_ _. True)\<rparr>"

text \<open>Four keys: their hashes are 1, 2, 0 and 3.\<close>

definition key_one :: "byte list" where "key_one = [1, 0, 0, 0, 0, 0, 0, 0]"
definition key_two :: "byte list" where "key_two = [2, 0, 0, 0, 0, 0, 0, 0]"
definition key_zero :: "byte list" where "key_zero = [0, 0, 0, 0, 0, 0, 0, 0]"
definition key_three :: "byte list" where "key_three = [3, 0, 0, 0, 0, 0, 0, 0]"

text \<open>A store of two slots after \<open>put(key_one, "AB")\<close>.\<close>

definition one_entry :: store where
  "one_entry = snd (hh_add ext0 key_one (OString [65, 66]) (init_store 1 4096 1024))"

subsection \<open>Notions used to state the properties of the value store\<close>

text \<open>The words that the operations on entries never change.\<close>

definition same_frame :: "store \<Rightarrow> store \<Rightarrow> bool" where
  "same_frame s s' \<longleftrightarrow>
     workers_should_exit s' = workers_should_exit s \<and> worker_can_exit s' = worker_can_exit s \<and>
     master_pid s' = master_pid s \<and> my_pid s' = my_pid s \<and>
     allow_removes s' = allow_removes s \<and>
     allow_hashtable_writes_by_current_process s' = allow_hashtable_writes_by_current_process s \<and>
     hash_table_pow s' = hash_table_pow s \<and> heap_init s' = heap_init s \<and>
     heap_max s' = heap_max s"

text \<open>
  The contract of LZ4 on one blob: when \<^verbatim>\<open>LZ4_compress_default\<close> produced output,
  \<^verbatim>\<open>LZ4_decompress_safe\<close> with the original length as capacity gives the blob back.
\<close>

definition lz4_roundtrip :: "'v ext \<Rightarrow> byte list \<Rightarrow> bool" where
  "lz4_roundtrip ext b =
     (let c = LZ4_compress_default ext b (LZ4_compressBound ext (length b))
      in c = [] \<or> LZ4_decompress_safe ext c (length b) = Some b)"

text \<open>
  The two sizes that \<^verbatim>\<open>should_collect\<close> compares, as numbers: the bytes in use and the
  bytes of them that are not wasted.
\<close>

definition used_bytes :: "store \<Rightarrow> nat" where
  "used_bytes s = unat (used_heap_size s)"

definition reachable_bytes :: "store \<Rightarrow> nat" where
  "reachable_bytes s = unat (used_heap_size s - get_wasted_heap_size s)"

text \<open>
  \<^verbatim>\<open>should_collect\<close> reads three words only: \<^verbatim>\<open>*heap\<close>, \<^verbatim>\<open>heap_init\<close> and
  \<^verbatim>\<open>*wasted_heap_size\<close>.  A store with given sizes in use and wasted:
\<close>

definition store_of_sizes :: "nat \<Rightarrow> nat \<Rightarrow> store" where
  "store_of_sizes used wasted =
     (init_store 1 4096 (2 ^ 32))\<lparr>heap := 4096 + used, wasted_heap_size := of_nat wasted\<rparr>"









definition empty_db :: db where
  "empty_db = \<lparr>db_header = None, db_rows = (\<lambda>_. None)\<rparr>"

text \<open>A call returns when its outcome is not an error.\<close>

definition returns :: "('a, 's) result \<Rightarrow> bool" where
  "returns x = (case fst x of Inl _ \<Rightarrow> False | Inr _ \<Rightarrow> True)"

section \<open>Properties of the dependency table\<close>

subsection \<open>Sizes and slot numbers\<close>

lemma dep_size_minus_1: "dep_size s - 1 = mask (dep_table_pow s)"
  by (simp add: dep_size_def mask_eq_exp_minus_1 push_bit_eq_mult)

lemma dep_slot_in_range:
  assumes "dep_table_pow s < 64"
  shows "unat (w AND (dep_size s - 1)) < unat (dep_size s)"
proof -
  have "(w AND mask (dep_table_pow s)) < (2 ^ dep_table_pow s :: u64)"
    using assms by (simp add: and_mask_less')
  then show ?thesis
    unfolding dep_size_minus_1 by (simp add: word_less_nat_alt dep_size_def push_bit_eq_mult)
qed

lemma dep_size_nonzero: "dep_table_pow s < 64 \<Longrightarrow> dep_size s \<noteq> 0"
  by (simp add: dep_size_def push_bit_eq_mult)

lemma dep_size_Suc: "dep_table_pow s < 64 \<Longrightarrow> \<exists>m. unat (dep_size s) = Suc m"
  using dep_size_nonzero [of s] by (cases "unat (dep_size s)") (auto simp: unat_eq_zero)

lemma dep_size_kill [simp]: "dep_size (kill_dep_used_slots s) = dep_size s"
  by (simp add: kill_dep_used_slots_def dep_size_def)

lemma dep_size_deptbl_update [simp]: "dep_size (s\<lparr>deptbl := t\<rparr>) = dep_size s"
  by (simp add: dep_size_def)

lemma dep_size_bindings_update [simp]:
  "dep_size (s\<lparr>deptbl_bindings := b, dcounter := c\<rparr>) = dep_size s"
  by (simp add: dep_size_def)

lemma ucast_key64:
  "(key64 :: u64) < 0x80000000 \<Longrightarrow>
   (ucast ((ucast key64 :: u32) AND 0x7FFFFFFF) :: u64) = key64"
proof -
  assume k: "key64 < 0x80000000"
  have m: "(0x7FFFFFFF :: u32) = mask 31" by (simp add: mask_eq_exp_minus_1)
  have "key64 < 2 ^ 31" using k by simp
  then have t: "key64 AND mask 31 = key64"
    by (rule less_mask_eq)
  have "(ucast ((ucast key64 :: u32) AND mask 31) :: u64) = key64 AND mask 31"
    by (rule bit_word_eqI) (auto simp: bit_simps)
  then show ?thesis using t m by simp
qed

subsection \<open>The filter on an edge that is present\<close>

lemma add_binding_loop_reachable:
  "binding_reachable n v slot s \<Longrightarrow>
   add_binding_loop n v slot s =
     (if deptbl_bindings s (unat slot) = v \<or> dcounter s < dep_size s
      then (Inr 0, s) else (Inl DepTableFull, s))"
proof (induction n arbitrary: slot)
  case 0
  then show ?case by simp
next
  case (Suc n)
  show ?case
  proof (cases "deptbl_bindings s (unat slot) = v")
    case True
    then show ?thesis by simp
  next
    case False
    with Suc.prems have nz: "deptbl_bindings s (unat slot) \<noteq> 0"
      and r: "binding_reachable n v ((slot + 1) AND (dep_size s - 1)) s"
      by auto
    show ?thesis
      using False nz Suc.IH [OF r] by (auto simp: Let_def not_le)
  qed
qed

text \<open>
  What one run of the loop can do: leave the table alone, or store the word in one slot
  that was empty and count it.
\<close>

lemma add_binding_loop_cases:
  "add_binding_loop n v slot s = (r, s') \<Longrightarrow>
     (s' = s \<and> (r = Inr 0 \<or> r = Inl DepTableFull \<or> r = Inl Nontermination)) \<or>
     ((r = Inr 1 \<or> r = Inl AssertionFailure) \<and> binding_reachable n v slot s' \<and>
      dep_table_pow s' = dep_table_pow s \<and> dcounter s' = dcounter s + 1 \<and>
      (\<forall>i. deptbl_bindings s i \<noteq> 0 \<longrightarrow> deptbl_bindings s' i = deptbl_bindings s i))"
proof (induction n arbitrary: slot)
  case 0
  then show ?case by simp
next
  case (Suc n)
  let ?sv = "deptbl_bindings s (unat slot)"
  show ?case
  proof (cases "?sv = v")
    case True
    with Suc.prems show ?thesis by simp
  next
    case nv: False
    show ?thesis
    proof (cases "dcounter s \<ge> dep_size s")
      case True
      with nv Suc.prems show ?thesis by simp
    next
      case nf: False
      show ?thesis
      proof (cases "?sv = 0")
        case True
        with nv nf Suc.prems show ?thesis
          by (auto simp: Let_def split: if_splits)
      next
        case False
        with nv nf Suc.prems
        have "add_binding_loop n v ((slot + 1) AND (dep_size s - 1)) s = (r, s')"
          by (simp add: Let_def)
        from Suc.IH [OF this] False nv show ?thesis
          by (auto simp: dep_size_def)
      qed
    qed
  qed
qed

lemma add_binding_result:
  "(snd (add_binding v s) = s \<and>
      (fst (add_binding v s) = Inr 0 \<or> (\<exists>e. fst (add_binding v s) = Inl e))) \<or>
   binding_present v (snd (add_binding v s))"
proof -
  obtain r s' where e: "add_binding v s = (r, s')" by (cases "add_binding v s")
  then have l: "add_binding_loop (unat (dep_size s)) v (hash_uint64 v AND (dep_size s - 1)) s
                  = (r, s')"
    by (simp add: add_binding_def)
  from add_binding_loop_cases [OF l]
  consider (a) "s' = s" "r = Inr 0 \<or> r = Inl DepTableFull \<or> r = Inl Nontermination"
    | (b) "dep_table_pow s' = dep_table_pow s"
          "binding_reachable (unat (dep_size s)) v (hash_uint64 v AND (dep_size s - 1)) s'"
    by blast
  then show ?thesis
  proof cases
    case a
    then show ?thesis using e by auto
  next
    case b
    have "dep_size s' = dep_size s" using b(1) by (simp add: dep_size_def)
    then have "binding_present v s'" using b(2) by (simp add: binding_present_def)
    then show ?thesis using e by simp
  qed
qed

text \<open>An edge that the filter has just accepted is present.\<close>

lemma add_binding_new_present:
  assumes "add_binding v s = (Inr 1, s')"
  shows "binding_present v s'"
proof -
  from add_binding_result [of v s] assms show ?thesis by auto
qed

lemma binding_reachable_cong:
  "deptbl_bindings s' = deptbl_bindings s \<Longrightarrow> dep_table_pow s' = dep_table_pow s \<Longrightarrow>
   binding_reachable n v slot s' = binding_reachable n v slot s"
  by (induction n arbitrary: slot) (simp_all add: dep_size_def)

text \<open>Edges stay present: the filter never overwrites a slot that is not empty.\<close>

lemma binding_reachable_mono:
  assumes "binding_reachable n v slot s"
    and "dep_table_pow s' = dep_table_pow s"
    and "\<forall>i. deptbl_bindings s i \<noteq> 0 \<longrightarrow> deptbl_bindings s' i = deptbl_bindings s i"
    and "v \<noteq> 0"
  shows "binding_reachable n v slot s'"
  using assms(1)
proof (induction n arbitrary: slot)
  case 0
  then show ?case by simp
next
  case (Suc n)
  have ds: "dep_size s' = dep_size s" using assms(2) by (simp add: dep_size_def)
  from Suc.prems consider (hit) "deptbl_bindings s (unat slot) = v"
    | (go) "deptbl_bindings s (unat slot) \<noteq> 0"
           "binding_reachable n v ((slot + 1) AND (dep_size s - 1)) s"
    by auto
  then show ?case
  proof cases
    case hit
    then have "deptbl_bindings s' (unat slot) = v" using assms(3,4) by auto
    then show ?thesis by simp
  next
    case go
    then have "deptbl_bindings s' (unat slot) \<noteq> 0" using assms(3) by auto
    then show ?thesis using Suc.IH [OF go(2)] ds by simp
  qed
qed

lemma binding_present_preserved:
  assumes "binding_present v s" and "v \<noteq> 0"
  shows "binding_present v (snd (add_binding w s))"
proof -
  obtain r s' where e: "add_binding w s = (r, s')" by (cases "add_binding w s")
  then have l: "add_binding_loop (unat (dep_size s)) w (hash_uint64 w AND (dep_size s - 1)) s
                  = (r, s')"
    by (simp add: add_binding_def)
  from add_binding_loop_cases [OF l]
  consider (a) "s' = s"
    | (b) "dep_table_pow s' = dep_table_pow s"
          "\<forall>i. deptbl_bindings s i \<noteq> 0 \<longrightarrow> deptbl_bindings s' i = deptbl_bindings s i"
    by blast
  then have "binding_present v s'"
  proof cases
    case a
    then show ?thesis using assms(1) by simp
  next
    case b
    have ds: "dep_size s' = dep_size s" using b(1) by (simp add: dep_size_def)
    show ?thesis
      unfolding binding_present_def ds
      using binding_reachable_mono [OF _ b(1) b(2) assms(2)] assms(1)
      by (simp add: binding_present_def)
  qed
  then show ?thesis using e by simp
qed

text \<open>
  C6 (corrected).  For an edge that is present, \<^verbatim>\<open>add_binding\<close> answers "duplicate"
  when the edge sits in the first slot probed or when \<open>dcounter < dep_size\<close>; otherwise
  it raises \<open>DepTableFull\<close>.  The comparison of \<open>dcounter\<close> with \<open>dep_size\<close> is made at
  every probed slot whose word differs from the edge, before the test for an empty slot,
  so it also guards the path that looks for a duplicate.  The table is left as it was in
  both cases.
\<close>

theorem add_binding_duplicate:
  assumes "binding_present v s"
  shows "add_binding v s =
           (if deptbl_bindings s (unat (hash_uint64 v AND (dep_size s - 1))) = v \<or>
               dcounter s < dep_size s
            then (Inr 0, s) else (Inl DepTableFull, s))"
  using assms unfolding binding_present_def add_binding_def
  by (rule add_binding_loop_reachable)

theorem add_binding_duplicate_witness:
  "binding_present 0x80000002 two_edges \<and>
   add_binding 0x80000002 two_edges = (Inr 0, two_edges)"
proof -
  have h: "binding_present 0x80000002 two_edges" by code_simp
  have c: "deptbl_bindings two_edges
             (unat (hash_uint64 0x80000002 AND (dep_size two_edges - 1))) = 0x80000002"
    by code_simp
  from add_binding_duplicate [OF h] c h show ?thesis by simp
qed

text \<open>
  The claim as stated fails on the full table of two slots: the edge \<open>(1,3)\<close> is present,
  in the slot after its home slot, and adding it again raises \<open>DepTableFull\<close>.
\<close>

theorem add_duplicate_raises_counterexample:
  "binding_present 0x80000003 two_edges \<and>
   fst (add_binding 0x80000003 two_edges) = Inl DepTableFull \<and>
   fst (add_dep 1 3 two_edges) = Inl DepTableFull"
  by code_simp

subsection \<open>Adding an edge twice\<close>

lemma alloc_loop_frame:
  "deptbl_bindings (snd (alloc_deptbl_node_loop n val slot s)) = deptbl_bindings s \<and>
   dep_table_pow (snd (alloc_deptbl_node_loop n val slot s)) = dep_table_pow s \<and>
   dcounter (snd (alloc_deptbl_node_loop n val slot s)) = dcounter s"
  by (induction n arbitrary: slot) (simp_all add: Let_def)

lemma prepend_loop_frame:
  "deptbl_bindings (snd (prepend_loop n k val slot s)) = deptbl_bindings s \<and>
   dep_table_pow (snd (prepend_loop n k val slot s)) = dep_table_pow s \<and>
   dcounter (snd (prepend_loop n k val slot s)) = dcounter s"
proof (induction n arbitrary: slot)
  case 0
  then show ?case by simp
next
  case (Suc n)
  obtain r s1 where a: "alloc_deptbl_node k val s = (r, s1)" by (cases "alloc_deptbl_node k val s")
  have f: "deptbl_bindings s1 = deptbl_bindings s \<and> dep_table_pow s1 = dep_table_pow s \<and>
           dcounter s1 = dcounter s"
    using a alloc_loop_frame [of "unat (dep_size s)" val _ s]
    by (simp add: alloc_deptbl_node_def Let_def split: prod.splits) (metis snd_conv)
  show ?case using Suc.IH a f
    by (cases r) (simp_all add: Let_def)
qed

lemma prepend_frame:
  "deptbl_bindings (snd (prepend_to_deptbl_list k val s)) = deptbl_bindings s \<and>
   dep_table_pow (snd (prepend_to_deptbl_list k val s)) = dep_table_pow s \<and>
   dcounter (snd (prepend_to_deptbl_list k val s)) = dcounter s"
  unfolding prepend_to_deptbl_list_def by (rule prepend_loop_frame)

lemma add_dep_unf:
  "k < 0x80000000 \<and> v < 0x80000000 \<Longrightarrow> add_dep k v t =
     (case add_binding (push_bit 31 (ucast k) OR ucast v) t of (Inl e, s1) \<Rightarrow> (Inl e, s1)
      | (Inr r, s1) \<Rightarrow> if r \<noteq> 0 then prepend_to_deptbl_list k v s1 else (Inr (), s1))"
  by (simp add: add_dep_def)

lemma add_dep_dup:
  assumes "k < 0x80000000 \<and> v < 0x80000000"
    and "binding_present (push_bit 31 (ucast k) OR ucast v) t"
  shows "snd (add_dep k v t) = t"
proof -
  have "add_binding (push_bit 31 (ucast k) OR ucast v) t = (Inr 0, t) \<or>
        add_binding (push_bit 31 (ucast k) OR ucast v) t = (Inl DepTableFull, t)"
    using assms(2) unfolding binding_present_def add_binding_def
    by (simp add: add_binding_loop_reachable)
  then show ?thesis by (auto simp: add_dep_unf [OF assms(1)])
qed


lemma add_dep_again:
  "snd (add_dep k v (snd (add_dep k v s))) = snd (add_dep k v s)"
proof (cases "k < 0x80000000 \<and> v < 0x80000000")
  case False
  then show ?thesis by (simp add: add_dep_def)
next
  case ok: True
  define w :: u64 where "w = push_bit 31 (ucast k) OR ucast v"
  note unf = add_dep_unf [OF ok, folded w_def]
  note dup = add_dep_dup [OF ok, folded w_def]
  obtain r s1 where e: "add_binding w s = (r, s1)" by (cases "add_binding w s")
  have "(s1 = s \<and> (r = Inr 0 \<or> (\<exists>e. r = Inl e))) \<or> binding_present w s1"
    using add_binding_result [of w s] by (simp add: e)
  then consider (same) "s1 = s" "r = Inr 0 \<or> (\<exists>e. r = Inl e)" | (new) "binding_present w s1"
    by blast
  then show ?thesis
  proof cases
    case same
    from same(2) have "snd (add_dep k v s) = s"
    proof
      assume "r = Inr 0" then show ?thesis using e same(1) by (simp add: unf)
    next
      assume "\<exists>e. r = Inl e" then show ?thesis using e same(1) by (auto simp add: unf)
    qed
    then show ?thesis by simp
  next
    case new
    show ?thesis
    proof (cases r)
      case (Inl x)
      then have s2: "snd (add_dep k v s) = s1" using e by (simp add: unf)
      show ?thesis unfolding s2 using new by (rule dup)
    next
      case (Inr x)
      show ?thesis
      proof (cases "x = 0")
        case True
        then have s2: "snd (add_dep k v s) = s1" using e Inr by (simp add: unf)
        show ?thesis unfolding s2 using new by (rule dup)
      next
        case False
        then have s2: "snd (add_dep k v s) = snd (prepend_to_deptbl_list k v s1)"
          using e Inr by (simp add: unf)
        have "binding_present w (snd (prepend_to_deptbl_list k v s1))"
          using new prepend_frame [of k v s1]
            binding_reachable_cong [of "snd (prepend_to_deptbl_list k v s1)" s1]
          by (simp add: binding_present_def dep_size_def)
        then show ?thesis unfolding s2 by (rule dup)
      qed
    qed
  qed
qed

lemma fresh_add_9_9:
  assumes "p < 64"
  shows "fst (hh_get_dep 9 (snd (add_dep 9 9 (init_deps p)))) = Inr [9] \<and>
         dcounter (snd (add_dep 9 9 (init_deps p))) = 1"
proof -
  have p: "dep_table_pow (init_deps p) < 64" using assms by (simp add: init_deps_def)
  obtain m where m: "unat (dep_size (init_deps p)) = Suc m"
    using dep_size_Suc [OF p] by auto
  have nz: "dep_size (init_deps p) \<noteq> 0" using dep_size_nonzero [OF p] .
  have [simp]: "dep_table_pow (init_deps p) = p" "deptbl (init_deps p) = (\<lambda>_. raw_zero)"
    "deptbl_bindings (init_deps p) = (\<lambda>_. 0)" "dcounter (init_deps p) = 0"
    by (simp_all add: init_deps_def)
  have c [simp]: "check_should_exit
      (init_deps p\<lparr>deptbl_bindings := b, dcounter := c, deptbl := t\<rparr>) = Inr ()" for b c t
    by (simp add: check_should_exit_def init_deps_def)
  show ?thesis
    using nz
    by (simp add: add_dep_def add_binding_def m prepend_to_deptbl_list_def hh_get_dep_def
        Let_def raw_zero_def TAG_KEY_def TAG_VAL_def TAG_NEXT_def word_le_nat_alt unat_eq_zero)
qed

text \<open>
  C5.  \<^verbatim>\<open>add_dep\<close> is idempotent: whatever the table, the keys and the outcome of the
  first call, a second call with the same edge leaves the table of the first call as it
  is, counter included.  On a fresh table of any size, \<open>add_edge(9,9); add_edge(9,9)\<close>
  gives \<open>get_edges(9) = [9]\<close> and \<open>dcounter = 1\<close>.
\<close>

theorem add_dep_idempotent:
  assumes "p < 64"
  shows "snd (add_dep k v (snd (add_dep k v s))) = snd (add_dep k v s) \<and>
         dcounter (snd (add_dep k v (snd (add_dep k v s)))) = dcounter (snd (add_dep k v s)) \<and>
         fst (hh_get_dep 9 (snd (add_dep 9 9 (snd (add_dep 9 9 (init_deps p)))))) = Inr [9] \<and>
         dcounter (snd (add_dep 9 9 (snd (add_dep 9 9 (init_deps p))))) = 1"
  using fresh_add_9_9 [OF assms] by (simp add: add_dep_again)

theorem add_dep_idempotent_witness:
  "(3::nat) < 64 \<and>
   snd (add_dep 1 2 (snd (add_dep 1 2 (init_deps 3)))) = snd (add_dep 1 2 (init_deps 3)) \<and>
   fst (hh_get_dep 9 (snd (add_dep 9 9 (snd (add_dep 9 9 (init_deps 3)))))) = Inr [9] \<and>
   dcounter (snd (add_dep 9 9 (snd (add_dep 9 9 (init_deps 3))))) = 1"
  using add_dep_idempotent [of 3 1 2 "init_deps 3"] by simp

subsection \<open>The edge from 0 to 0\<close>

lemma add_binding_loop_zero:
  "snd (add_binding_loop n 0 slot s) = s \<and> fst (add_binding_loop n 0 slot s) \<noteq> Inr 1"
  by (induction n arbitrary: slot) (simp_all add: Let_def)

text \<open>
  The combined word of the edge \<open>(0,0)\<close> is 0, the mark of an empty slot, so the filter
  takes the first empty slot for a copy of the edge: the edge is never stored.
\<close>

lemma add_dep_zero_zero_ignored: "snd (add_dep 0 0 s) = s"
proof -
  obtain r s1 where e: "add_binding 0 s = (r, s1)" by (cases "add_binding 0 s")
  have "s1 = s \<and> r \<noteq> Inr 1"
    using add_binding_loop_zero [of "unat (dep_size s)" "hash_uint64 0 AND (dep_size s - 1)" s] e
    by (simp add: add_binding_def)
  moreover have "r = Inr 0 \<or> r = Inr 1 \<or> (\<exists>x. r = Inl x)"
    using add_binding_loop_cases [of "unat (dep_size s)" 0 _ s r s1] e
    by (auto simp: add_binding_def)
  ultimately show ?thesis using e by (auto simp: add_dep_def)
qed

text \<open>
  C2 (the code drops an edge).  On a fresh table, \<open>add_edge(0,0)\<close> returns normally and
  \<open>get_edges(0)\<close> is then the empty list, not \<open>[0]\<close>.
\<close>

theorem get_dep_after_add_zero_zero:
  "fst (add_dep 0 0 (init_deps 3)) = Inr () \<and>
   fst (hh_get_dep 0 (snd (add_dep 0 0 (init_deps 3)))) = Inr []"
  by code_simp

text \<open>The scenario of the claim with other keys: three edges from 1, read back in order.\<close>

lemma chain_of_three:
  "fst (hh_get_dep 1 (snd (add_dep 1 4 (snd (add_dep 1 3 (snd (add_dep 1 2 (init_deps 3)))))))) =
     Inr [2, 3, 4] \<and>
   dcounter (snd (add_dep 1 4 (snd (add_dep 1 3 (snd (add_dep 1 2 (init_deps 3))))))) = 3"
  by code_simp

subsection \<open>Saving with replacement\<close>

lemma get_dep_killed:
  assumes p: "dep_table_pow s < 64" and c: "check_should_exit s = Inr ()"
    and k: "key64 < 0x80000000"
  shows "hh_get_dep key64 (kill_dep_used_slots s) = (Inr [], kill_dep_used_slots s)"
proof -
  let ?s = "kill_dep_used_slots s"
  have ds: "dep_size ?s = dep_size s" by simp
  obtain m where m: "unat (dep_size s) = Suc m"
    using dep_size_Suc [of s] p by auto
  have c': "check_should_exit ?s = Inr ()"
    using c by (simp add: check_should_exit_def kill_dep_used_slots_def)
  have z: "deptbl ?s (unat (w AND (dep_size s - 1))) = raw_zero" for w
    using dep_slot_in_range [OF p, of w] by (simp add: kill_dep_used_slots_def)
  show ?thesis
    by (simp add: hh_get_dep_def c' ucast_key64 [OF k] ds m z Let_def)
qed

lemma save_state:
  assumes "returns (hh_save_dep_table_helper d build_info replace is_update s)"
    and "replace \<noteq> 0"
  shows "snd (hh_save_dep_table_helper d build_info replace is_update s) =
           kill_dep_used_slots s"
  using assms
  by (auto simp: hh_save_dep_table_helper_def hh_swap_in_db_def returns_def
      split: sum.splits prod.splits)

text \<open>
  C9.  When \<^verbatim>\<open>hh_save_dep_table_helper\<close>, the body of both
  \<^verbatim>\<open>hh_save_dep_table_sqlite\<close> and \<^verbatim>\<open>hh_update_dep_table_sqlite\<close>, returns with
  \<^verbatim>\<open>replace_state_after_saving\<close> set, every slot of the adjacency table and of the
  filter is zero, \<open>dcounter\<close> has its value from before the call, and \<open>get_edges\<close> of
  every node number, when the process is not asked to exit, is the empty list.
\<close>

theorem save_replaces_state:
  assumes "returns (hh_save_dep_table_helper d build_info replace is_update s)"
    and "replace \<noteq> 0" and "dep_table_pow s < 64"
    and "s' = snd (hh_save_dep_table_helper d build_info replace is_update s)"
  shows "(\<forall>i < unat (dep_size s). deptbl s' i = raw_zero \<and> deptbl_bindings s' i = 0) \<and>
         dcounter s' = dcounter s \<and>
         (\<forall>key64. check_should_exit s = Inr () \<longrightarrow> key64 < 0x80000000 \<longrightarrow>
            hh_get_dep key64 s' = (Inr [], s'))"
proof -
  have s': "s' = kill_dep_used_slots s"
    using save_state [OF assms(1,2)] assms(4) by simp
  show ?thesis
    unfolding s' using get_dep_killed [OF assms(3)]
    by (simp add: kill_dep_used_slots_def)
qed

theorem save_replaces_state_witness:
  "returns (hh_save_dep_table_helper empty_db ''rev'' 1 False two_edges) \<and>
   (1 :: u64) \<noteq> 0 \<and> dep_table_pow two_edges < 64 \<and>
   fst (hh_get_dep 1 two_edges) = Inr [2, 3] \<and>
   deptbl (snd (hh_save_dep_table_helper empty_db ''rev'' 1 False two_edges)) 0 = raw_zero \<and>
   deptbl_bindings (snd (hh_save_dep_table_helper empty_db ''rev'' 1 False two_edges)) 1 = 0 \<and>
   dcounter (snd (hh_save_dep_table_helper empty_db ''rev'' 1 False two_edges)) = 2 \<and>
   fst (hh_get_dep 1 (snd (hh_save_dep_table_helper empty_db ''rev'' 1 False two_edges))) =
     Inr []"
proof -
  have r: "returns (hh_save_dep_table_helper empty_db ''rev'' 1 False two_edges)"
    by code_simp
  have p: "dep_table_pow two_edges < 64" by code_simp
  have c: "check_should_exit two_edges = Inr ()" by code_simp
  have n: "unat (dep_size two_edges) = 2" by code_simp
  have d: "dcounter two_edges = 2" by code_simp
  have g: "fst (hh_get_dep 1 two_edges) = Inr [2, 3]" by code_simp
  from save_replaces_state [OF r _ p refl] c n d g r p show ?thesis by simp
qed


section \<open>Properties of the value store\<close>

subsection \<open>Running the operations on examples\<close>

lemma hh_add_loop_unfold:
  "0 < n \<Longrightarrow> hh_add_loop n ext h data init_slot slot s =
     (let slot_hash = hash (hashtbl s (unat slot))
      in if slot_hash = h then write_at ext (unat slot) data s
         else if hcounter s \<ge> hashtbl_size s then (Inl HashTableFull, s)
         else if slot_hash = 0 then
           (let size = hcounter s;
                s1 = s\<lparr>hashtbl := (hashtbl s)
                          (unat slot := (hashtbl s (unat slot))\<lparr>hash := h\<rparr>),
                       hcounter := hcounter s + 1\<rparr>
            in if \<not> size < hashtbl_size s then (Inl AssertionFailure, s1)
               else write_at ext (unat slot) data s1)
         else (let slot' = next_slot s slot
               in if slot' = init_slot then (Inl HashTableFull, s)
                  else hh_add_loop (n - 1) ext h data init_slot slot' s))"
proof -
  assume "0 < n"
  then obtain m where n: "n = Suc m" by (cases n) auto
  show ?thesis unfolding n by (simp only: hh_add_loop.simps diff_Suc_1)
qed

lemma find_slot_loop_unfold:
  "0 < n \<Longrightarrow> find_slot_loop n h init_slot slot s =
     (if hash (hashtbl s (unat slot)) = h then Inr slot
      else if hash (hashtbl s (unat slot)) = 0 then Inr slot
      else (let slot' = next_slot s slot
            in if slot' = init_slot then Inl HashTableFull
               else find_slot_loop (n - 1) h init_slot slot' s))"
proof -
  assume "0 < n"
  then obtain m where n: "n = Suc m" by (cases n) auto
  show ?thesis unfolding n by (simp only: find_slot_loop.simps diff_Suc_1)
qed

lemmas store_eval = init_store_def ext0_def key_one_def key_two_def key_zero_def
  hh_add_def check_should_exit_def get_hash_def hashtbl_size_def hh_add_loop_unfold
  write_at_def hh_store_ocaml_def hh_alloc_def ALIGNED_def Heap_entry_total_size_def
  Entry_size_def Entry_kind_def Entry_uncompressed_size_def KIND_STRING_def KIND_SERIALIZED_def
  HASHTBL_WRITE_IN_PROGRESS_def Let_def
  find_slot_def find_slot_loop_unfold next_slot_def hh_mem_inner_def hh_move_def hh_remove_def
  assert_master_def assert_allow_removes_def returns_def hh_hash_used_slots_def
  load64_def store64_def memcpy_def memmove_def load_bytes_def hh_deserialize_def
  hh_get_and_deserialize_def Min_long_def upt_conv_Cons

lemma one_entry_fields:
  "hash_table_pow one_entry = 1" "hcounter one_entry = 1" "heap one_entry = 4160"
  "hashtbl one_entry 0 = \<lparr>hash = 0, addr = 0\<rparr>"
  "hashtbl one_entry (Suc 0) = \<lparr>hash = 1, addr = 4096\<rparr>"
  "my_pid one_entry = 1" "master_pid one_entry = 1" "allow_removes one_entry = 1"
  "workers_should_exit one_entry = 0"
  by (simp_all add: one_entry_def store_eval)

lemma one_entry_more:
  "heap_max one_entry = 5120" "allow_hashtable_writes_by_current_process one_entry = 1"
  "worker_can_exit one_entry = 1" "heap_init one_entry = 4096" "wasted_heap_size one_entry = 0"
  by (simp_all add: one_entry_def store_eval)

lemma w21: "\<not> (2 :: u64) \<le> 1" by (simp add: word_le_nat_alt)

subsection \<open>Probing and the words that stay\<close>

lemma find_slot_loop_hash:
  "find_slot_loop n h init_slot slot s = Inr j \<Longrightarrow>
   hash (hashtbl s (unat j)) = h \<or> hash (hashtbl s (unat j)) = 0"
  by (induction n arbitrary: slot) (auto simp: Let_def split: if_splits)

lemma find_slot_hash:
  "find_slot k s = Inr j \<Longrightarrow>
   hash (hashtbl s (unat j)) = get_hash k \<or> hash (hashtbl s (unat j)) = 0"
  unfolding find_slot_def Let_def by (rule find_slot_loop_hash)

lemma find_slot_loop_cong:
  assumes "\<forall>i. hash (hashtbl s' i) = hash (hashtbl s i)"
    and "hash_table_pow s' = hash_table_pow s"
  shows "find_slot_loop n h init_slot slot s' = find_slot_loop n h init_slot slot s"
  using assms
  by (induction n arbitrary: slot) (simp_all add: Let_def next_slot_def hashtbl_size_def)

lemma find_slot_cong:
  assumes "\<forall>i. hash (hashtbl s' i) = hash (hashtbl s i)"
    and "hash_table_pow s' = hash_table_pow s"
  shows "find_slot k s' = find_slot k s"
  using find_slot_loop_cong [OF assms] assms(2)
  by (simp add: find_slot_def hashtbl_size_def)

lemma hh_mem_status_inner: "hh_mem_status k s = hh_mem_inner k s"
  by (auto simp: hh_mem_status_def hh_mem_inner_def Let_def split: sum.splits)

lemma hh_mem_inner_found:
  assumes "check_should_exit s = Inr ()" and "find_slot k s = Inr slot"
  shows "hh_mem_inner k s =
     (if hash (hashtbl s (unat slot)) \<noteq> get_hash k then (Inr (- 1), s)
      else if addr (hashtbl s (unat slot)) = 0 then (Inr (- 2), s)
      else if addr (hashtbl s (unat slot)) = HASHTBL_WRITE_IN_PROGRESS
      then (Inl (Failure ''hh_mem busy-wait loop stuck for 60s''), s)
      else (Inr 1, s))"
  using assms by (simp add: hh_mem_inner_def Let_def)

lemma same_frame_refl [simp]: "same_frame s s"
  by (simp add: same_frame_def)

lemma same_frame_trans: "same_frame s s1 \<Longrightarrow> same_frame s1 s2 \<Longrightarrow> same_frame s s2"
  by (simp add: same_frame_def)

lemma hh_alloc_frame: "same_frame s (snd (hh_alloc ext header s))"
  by (simp add: hh_alloc_def Let_def same_frame_def)

lemma hh_store_ocaml_frame: "same_frame s (snd (hh_store_ocaml ext data s))"
  by (simp add: hh_store_ocaml_def hh_alloc_def Let_def same_frame_def
      split: ocaml_value.splits prod.splits)

lemma write_at_frame: "same_frame s (snd (write_at ext slot data s))"
proof -
  let ?s1 = "s\<lparr>hashtbl := (hashtbl s)
                      (slot := (hashtbl s slot)\<lparr>addr := HASHTBL_WRITE_IN_PROGRESS\<rparr>)\<rparr>"
  have 1: "same_frame s ?s1" by (simp add: same_frame_def)
  have 2: "same_frame ?s1 (snd (hh_store_ocaml ext data ?s1))" by (rule hh_store_ocaml_frame)
  have 3: "same_frame s (snd (hh_store_ocaml ext data ?s1))"
    using 1 2 by (rule same_frame_trans)
  show ?thesis
    using 1 3
    by (cases "hh_store_ocaml ext data ?s1")
       (auto simp: write_at_def Let_def same_frame_def split: sum.splits prod.splits)
qed

lemma hh_add_loop_frame: "same_frame s (snd (hh_add_loop n ext h data init_slot slot s))"
proof (induction n arbitrary: slot)
  case 0
  then show ?case by simp
next
  case (Suc n)
  let ?s1 = "s\<lparr>hashtbl := (hashtbl s)(unat slot := (hashtbl s (unat slot))\<lparr>hash := h\<rparr>),
               hcounter := hcounter s + 1\<rparr>"
  have 1: "same_frame s ?s1" by (simp add: same_frame_def)
  have 2: "same_frame s (snd (write_at ext (unat slot) data ?s1))"
    using 1 write_at_frame by (rule same_frame_trans)
  show ?case
    using Suc.IH write_at_frame [of s ext "unat slot" data] 1 2
    by (simp add: Let_def)
qed

lemma hh_add_frame: "same_frame s (snd (hh_add ext k data s))"
  by (simp add: hh_add_def Let_def hh_add_loop_frame split: sum.splits)

lemma check_should_exit_frame: "same_frame s s' \<Longrightarrow> check_should_exit s' = check_should_exit s"
  by (simp add: same_frame_def check_should_exit_def)

lemma hh_add_returns_check: "returns (hh_add ext k data s) \<Longrightarrow> check_should_exit s = Inr ()"
  by (cases "check_should_exit s") (simp_all add: hh_add_def returns_def)

lemma put_remove_mem:
  assumes "returns (hh_add ext k data s)"
    and "returns (hh_remove k (snd (hh_add ext k data s)))"
  shows "hh_mem_inner k (snd (hh_remove k (snd (hh_add ext k data s)))) =
           (Inr (- 2), snd (hh_remove k (snd (hh_add ext k data s))))"
proof -
  define s1 where "s1 = snd (hh_add ext k data s)"
  define s2 where "s2 = snd (hh_remove k s1)"
  have c1: "check_should_exit s1 = Inr ()"
    using hh_add_returns_check [OF assms(1)] check_should_exit_frame [OF hh_add_frame [where s=s and ext=ext and k=k and data=data]]
    by (simp add: s1_def)
  from assms(2) obtain slot where f: "find_slot k s1 = Inr slot"
    by (cases "find_slot k s1") (auto simp: hh_remove_def returns_def s1_def)
  from assms(2) f have h: "hash (hashtbl s1 (unat slot)) = get_hash k"
    by (auto simp: hh_remove_def returns_def s1_def split: sum.splits if_splits)
  from assms(2) f h have s2: "s2 = s1\<lparr>wasted_heap_size := wasted_heap_size s1 +
          ALIGNED (Heap_entry_total_size (load64 (mem s1) (unat (addr (hashtbl s1 (unat slot)))))),
        hashtbl := (hashtbl s1)(unat slot := (hashtbl s1 (unat slot))\<lparr>addr := 0\<rparr>),
        removed_count := removed_count s1 + 1\<rparr>"
    by (auto simp: hh_remove_def returns_def s1_def s2_def Let_def split: sum.splits if_splits)
  have c2: "check_should_exit s2 = Inr ()"
    using c1 by (simp add: s2 check_should_exit_def)
  have "find_slot k s2 = find_slot k s1"
    by (rule find_slot_cong) (simp_all add: s2)
  then have f2: "find_slot k s2 = Inr slot" using f by simp
  have "hh_mem_inner k s2 = (Inr (- 2), s2)"
    using hh_mem_inner_found [OF c2 f2] h by (simp add: s2)
  then show ?thesis by (simp add: s2_def s1_def)
qed

lemma unknown_mem:
  assumes "check_should_exit s = Inr ()" and "find_slot k s = Inr slot"
    and "\<forall>i. hash (hashtbl s i) \<noteq> get_hash k"
  shows "hh_mem_inner k s = (Inr (- 1), s)"
  using hh_mem_inner_found [OF assms(1,2)] assms(3) by simp

subsection \<open>Memory and headers\<close>

lemma assemble_bytes:
  "foldr (\<lambda>b acc. ucast b OR push_bit 8 acc)
     (map (\<lambda>i. (ucast (drop_bit (8 * i) w) :: byte)) [j..<j + k]) (0 :: u64) =
   take_bit (8 * k) (drop_bit (8 * j) w)"
proof (induction k arbitrary: j)
  case 0
  then show ?case by simp
next
  case (Suc k)
  have l: "[j..<j + Suc k] = j # [Suc j..<Suc j + k]"
    by (simp add: upt_conv_Cons)
  show ?case
    unfolding l
    apply (simp only: list.map foldr.simps o_apply Suc.IH)
    apply (rule bit_word_eqI)
    apply (auto simp: bit_simps)
    done
qed

lemma load64_store64 [simp]: "load64 (store64 m a w) a = w"
proof -
  have "map (store64 m a w) [a..<a + 8] = map (\<lambda>i. (ucast (drop_bit (8 * i) w) :: byte)) [0..<0 + 8]"
    by (auto simp: list_eq_iff_nth_eq store64_def)
  then show ?thesis
    unfolding load64_def using assemble_bytes [of w 0 8] by (simp add: take_bit_word_eq_self)
qed

lemma load64_cong: "(\<And>x. a \<le> x \<Longrightarrow> x < a + 8 \<Longrightarrow> m' x = m x) \<Longrightarrow> load64 m' a = load64 m a"
  unfolding load64_def by (rule arg_cong [where f = "\<lambda>l. foldr _ l 0"]) (auto simp: list_eq_iff_nth_eq)

lemma load_bytes_cong:
  "(\<And>x. a \<le> x \<Longrightarrow> x < a + n \<Longrightarrow> m' x = m x) \<Longrightarrow> load_bytes m' a n = load_bytes m a n"
  unfolding load_bytes_def by (auto simp: list_eq_iff_nth_eq)

lemma load_bytes_memcpy: "length b = n \<Longrightarrow> load_bytes (memcpy m a b n) a n = b"
  unfolding load_bytes_def memcpy_def by (auto simp: list_eq_iff_nth_eq)

lemma of_nat_31:
  assumes "n < 2 ^ 31"
  shows "(of_nat n :: u64) = take_bit 31 (of_nat n)"
proof -
  have "take_bit 31 n = n" using assms by (simp add: take_bit_nat_eq_self)
  then have "(of_nat n :: u64) = of_nat (take_bit 31 n)" by simp
  also have "\<dots> = take_bit 31 (of_nat n)" by (simp add: of_nat_take_bit)
  finally show ?thesis .
qed

lemma header_fields:
  fixes kind :: u64
  assumes "sz < 2 ^ 31" and "u < 2 ^ 31" and "kind = 0 \<or> kind = 1"
  defines "H \<equiv> push_bit 33 (of_nat sz) OR push_bit 32 kind OR push_bit 1 (of_nat u) OR (1 :: u64)"
  shows "Entry_size H = of_nat sz" and "Entry_kind H = kind"
    and "Entry_uncompressed_size H = of_nat u"
proof -
  define a :: u64 where "a = of_nat sz"
  define b :: u64 where "b = of_nat u"
  have a: "a = take_bit 31 a" unfolding a_def using assms(1) by (rule of_nat_31)
  have b: "b = take_bit 31 b" unfolding b_def using assms(2) by (rule of_nat_31)
  have ba: "bit a n \<Longrightarrow> n < 31" for n by (subst (asm) a) (simp add: bit_simps)
  have bb: "bit b n \<Longrightarrow> n < 31" for n by (subst (asm) b) (simp add: bit_simps)
  have k: "bit kind n \<Longrightarrow> n = 0" for n using assms(3) by (auto simp: bit_simps)
  have b2: "bit (b * 2) n \<longleftrightarrow> 0 < n \<and> n < 32 \<and> bit b (n - 1)" for n
  proof -
    have e: "push_bit 1 b = b * 2" by (simp add: push_bit_eq_mult)
    have "bit (push_bit 1 b) n \<longleftrightarrow> 1 \<le> n \<and> possible_bit TYPE(64 word) n \<and> bit b (n - 1)"
      by (rule bit_push_bit_iff)
    then have "bit (b * 2) n \<longleftrightarrow> 1 \<le> n \<and> possible_bit TYPE(64 word) n \<and> bit b (n - 1)"
      unfolding e .
    then show ?thesis using bb [of "n - 1"] by (auto simp: possible_bit_word)
  qed
  have m: "(0x7FFFFFFF :: u64) = mask 31" by (simp add: mask_eq_exp_minus_1)
  have H: "H = push_bit 33 a OR push_bit 32 kind OR push_bit 1 b OR 1"
    by (simp add: H_def a_def b_def)
  show "Entry_size H = of_nat sz"
    unfolding Entry_size_def H a_def [symmetric]
    by (rule bit_word_eqI) (auto simp: bit_simps b2 dest: ba bb k)
  show "Entry_kind H = kind"
    unfolding Entry_kind_def H
    by (rule bit_word_eqI) (auto simp: bit_simps b2 dest: ba bb k)
  show "Entry_uncompressed_size H = of_nat u"
    unfolding Entry_uncompressed_size_def H b_def [symmetric] m
    by (rule bit_word_eqI) (auto simp: bit_simps b2 dest: ba bb k)
qed

lemma unat_of_nat_31: "n < 2 ^ 31 \<Longrightarrow> unat (of_nat n :: u64) = n"
  by (simp add: unat_of_nat)

text \<open>What a successful hh_store_ocaml of a string leaves behind.\<close>

lemma hh_store_ocaml_string:
  assumes st: "hh_store_ocaml ext (OString b) s = (Inr (a, alloc_size, orig_size), s1)"
    and lz4: "LZ4_compress_default ext b (LZ4_compressBound ext (length b)) \<noteq> [] \<and>
              length (LZ4_compress_default ext b (LZ4_compressBound ext (length b))) < length b
              \<longrightarrow> LZ4_decompress_safe ext
                     (LZ4_compress_default ext b (LZ4_compressBound ext (length b))) (length b)
                   = Some b"
    and hp: "1 < heap s"
  shows "a = heap s \<and> orig_size = length b \<and> hashtbl s1 = hashtbl s \<and> hcounter s1 = hcounter s \<and>
         (\<forall>s2. mem s2 = mem s1 \<longrightarrow> hh_deserialize ext a s2 = Inr (OString b))"
proof -
  define c where "c = LZ4_compress_default ext b (LZ4_compressBound ext (length b))"
  define comp where "comp \<longleftrightarrow> c \<noteq> [] \<and> length c < length b"
  define u where "u = (if comp then length b else 0)"
  define sz where "sz = (if comp then length c else length b)"
  define payload where "payload = (if comp then c else b)"
  define H :: u64 where
    "H = push_bit 33 (of_nat sz) OR push_bit 32 KIND_STRING OR push_bit 1 (of_nat u) OR 1"
  have "\<not> length b < 2 ^ 31 \<Longrightarrow> hh_store_ocaml ext (OString b) s = (Inl AssertionFailure, s)"
    by (simp add: hh_store_ocaml_def)
  then have len: "length b < 2 ^ 31"
    using st by force
  obtain r s' where al: "hh_alloc ext H s = (r, s')" by (cases "hh_alloc ext H s")
  have "r = Inr a \<and> s1 = s'\<lparr>mem := memcpy (mem s') (a + 8) payload sz\<rparr> \<and>
        orig_size = length b"
  proof (cases comp)
    case True
    then have cc: "c \<noteq> []" "length c < length b" by (simp_all add: comp_def)
    have "hh_alloc ext (push_bit 33 (of_nat (length c)) OR push_bit 32 KIND_STRING OR
             push_bit 1 (of_nat (length b)) OR 1) s = (r, s')"
      using al True by (simp add: H_def sz_def u_def)
    moreover have "b \<noteq> []" using cc by auto
    ultimately show ?thesis
      using st len True cc
      by (cases r)
         (auto simp add: hh_store_ocaml_def Let_def c_def [symmetric] sz_def payload_def)
  next
    case False
    then have cc: "c = [] \<or> \<not> length c < length b" by (simp add: comp_def)
    have "hh_alloc ext (push_bit 33 (of_nat (length b)) OR push_bit 32 KIND_STRING OR
             push_bit 1 (of_nat 0) OR 1) s = (r, s')"
      using al False by (simp add: H_def sz_def u_def)
    then show ?thesis
      using st len False cc
      by (cases r)
         (auto simp add: hh_store_ocaml_def Let_def c_def [symmetric] sz_def payload_def)
  qed
  then have r: "r = Inr a" and s1: "s1 = s'\<lparr>mem := memcpy (mem s') (a + 8) payload sz\<rparr>"
    and o: "orig_size = length b"
    by simp_all
  from al r have a: "a = heap s" and m': "mem s' = store64 (mem s) a H"
    and t': "hashtbl s' = hashtbl s" "hcounter s' = hcounter s"
    by (auto simp: hh_alloc_def Let_def split: if_splits)
  have szb: "sz < 2 ^ 31" "u < 2 ^ 31" using len by (auto simp: sz_def u_def comp_def)
  have hf: "Entry_size H = of_nat sz" "Entry_kind H = KIND_STRING"
    "Entry_uncompressed_size H = of_nat u"
    using header_fields [OF szb, of KIND_STRING] by (simp_all add: H_def KIND_STRING_def)
  have lp: "length payload = sz" by (simp add: payload_def sz_def)
  have des: "hh_deserialize ext a s2 = Inr (OString b)" if m2: "mem s2 = mem s1" for s2
  proof -
    have h: "load64 (mem s2) a = H"
    proof -
      have "load64 (mem s2) a = load64 (store64 (mem s) a H) a"
        by (rule load64_cong) (simp add: m2 s1 m' memcpy_def)
      then show ?thesis by simp
    qed
    have p: "load_bytes (mem s2) (a + 8) sz = payload"
      using load_bytes_memcpy [OF lp] by (simp add: m2 s1)
    have a1: "\<not> (a = 0 \<or> a = 1)" using hp a by simp
    show ?thesis
    proof (cases comp)
      case True
      then have "LZ4_decompress_safe ext c (length b) = Some b"
        using lz4 by (simp add: comp_def c_def)
      moreover have "u = length b" "u \<noteq> 0" "payload = c" using True
        by (auto simp: u_def payload_def comp_def)
      ultimately show ?thesis
        using a1 szb len unat_of_nat_31 [of sz] unat_of_nat_31 [of "length b"]
        by (simp add: hh_deserialize_def h hf p Let_def)
    next
      case False
      then have "u = 0" "payload = b" by (simp_all add: u_def payload_def)
      then show ?thesis
        using a1 szb len unat_of_nat_31 [of sz] unat_of_nat_31 [of "length b"]
        by (simp add: hh_deserialize_def h hf p Let_def)
    qed
  qed
  show ?thesis using a o t' des by (simp add: s1)
qed

subsection \<open>What a winning put leaves behind\<close>

lemma Min_long_neg: "int n \<noteq> Min_long"
  by (simp add: Min_long_def)

lemma write_at_string:
  assumes w: "write_at ext slot (OString b) s = (Inr (al, orig), s1)"
    and won: "al \<noteq> Min_long"
    and lz4: "lz4_roundtrip ext b"
    and hp: "1 < heap s"
  shows "hashtbl s1 = (hashtbl s)(slot := (hashtbl s slot)\<lparr>addr := of_nat (heap s)\<rparr>) \<and>
         hcounter s1 = hcounter s \<and> orig = int (length b) \<and>
         (\<forall>s2. mem s2 = mem s1 \<longrightarrow> hh_deserialize ext (heap s) s2 = Inr (OString b))"
proof -
  let ?s0 = "s\<lparr>hashtbl := (hashtbl s)
                      (slot := (hashtbl s slot)\<lparr>addr := HASHTBL_WRITE_IN_PROGRESS\<rparr>)\<rparr>"
  have z: "addr (hashtbl s slot) = 0"
    using w won by (auto simp: write_at_def split: if_splits)
  obtain r s2 where st: "hh_store_ocaml ext (OString b) ?s0 = (r, s2)"
    by (cases "hh_store_ocaml ext (OString b) ?s0")
  from w z st obtain a alloc_size orig_size where
    r: "r = Inr (a, alloc_size, orig_size)" and o: "orig = int orig_size"
    and s1: "s1 = s2\<lparr>hashtbl := (hashtbl s2)(slot := (hashtbl s2 slot)\<lparr>addr := of_nat a\<rparr>)\<rparr>"
    by (cases r) (auto simp: write_at_def Let_def split: if_splits)
  have lz: "LZ4_compress_default ext b (LZ4_compressBound ext (length b)) \<noteq> [] \<and>
            length (LZ4_compress_default ext b (LZ4_compressBound ext (length b))) < length b
            \<longrightarrow> LZ4_decompress_safe ext
                  (LZ4_compress_default ext b (LZ4_compressBound ext (length b))) (length b)
                = Some b"
    using lz4 by (auto simp: lz4_roundtrip_def Let_def)
  have hp0: "1 < heap ?s0" using hp by simp
  note p = hh_store_ocaml_string [OF st [unfolded r] lz hp0]
  have "hashtbl s1 = (hashtbl s)(slot := (hashtbl s slot)\<lparr>addr := of_nat (heap s)\<rparr>)"
    using p by (auto simp: s1 fun_eq_iff)
  moreover have "mem s1 = mem s2" "hcounter s1 = hcounter s2" by (simp_all add: s1)
  ultimately show ?thesis using p o by auto
qed

lemma find_slot_loop_step:
  assumes "hash (hashtbl s (unat slot)) \<noteq> h" and "hash (hashtbl s (unat slot)) \<noteq> 0"
    and "next_slot s slot \<noteq> init_slot"
  shows "find_slot_loop (Suc n) h init_slot slot s =
           find_slot_loop n h init_slot (next_slot s slot) s"
  using assms by (simp add: Let_def)

lemma hh_add_loop_string:
  assumes "hh_add_loop n ext h (OString b) init_slot slot s = (Inr (al, orig), s1)"
    and won: "al \<noteq> Min_long"
    and lz4: "lz4_roundtrip ext b"
    and hp: "1 < heap s"
  shows "\<exists>j. find_slot_loop n h init_slot slot s1 = Inr j \<and>
             hash (hashtbl s1 (unat j)) = h \<and>
             addr (hashtbl s1 (unat j)) = of_nat (heap s) \<and>
             orig = int (length b) \<and>
             (\<forall>s2. mem s2 = mem s1 \<longrightarrow> hh_deserialize ext (heap s) s2 = Inr (OString b)) \<and>
             (\<forall>i. hash (hashtbl s i) \<noteq> h \<and> hash (hashtbl s i) \<noteq> 0 \<longrightarrow>
                  hashtbl s1 i = hashtbl s i)"
  using assms(1)
proof (induction n arbitrary: slot)
  case 0
  then show ?case by simp
next
  case (Suc n)
  let ?sh = "hash (hashtbl s (unat slot))"
  show ?case
  proof (cases "?sh = h")
    case True
    with Suc.prems have w: "write_at ext (unat slot) (OString b) s = (Inr (al, orig), s1)"
      by simp
    note p = write_at_string [OF w won lz4 hp]
    have "find_slot_loop (Suc n) h init_slot slot s1 = Inr slot"
      using p True by simp
    then show ?thesis using p True by auto
  next
    case nh: False
    show ?thesis
    proof (cases "hcounter s \<ge> hashtbl_size s")
      case True
      with nh Suc.prems show ?thesis by simp
    next
      case nf: False
      show ?thesis
      proof (cases "?sh = 0")
        case True
        let ?s' = "s\<lparr>hashtbl := (hashtbl s)(unat slot := (hashtbl s (unat slot))\<lparr>hash := h\<rparr>),
                     hcounter := hcounter s + 1\<rparr>"
        from nh nf True Suc.prems
        have w: "write_at ext (unat slot) (OString b) ?s' = (Inr (al, orig), s1)"
          by (simp add: Let_def split: if_splits)
        have hp': "1 < heap ?s'" using hp by simp
        note p = write_at_string [OF w won lz4 hp']
        have "find_slot_loop (Suc n) h init_slot slot s1 = Inr slot"
          using p by simp
        then show ?thesis using p True by auto
      next
        case nz: False
        let ?slot' = "next_slot s slot"
        from nh nf nz Suc.prems have ni: "?slot' \<noteq> init_slot"
          and rec: "hh_add_loop n ext h (OString b) init_slot ?slot' s = (Inr (al, orig), s1)"
          by (auto simp: Let_def split: if_splits)
        from Suc.IH [OF rec] obtain j where
          j: "find_slot_loop n h init_slot ?slot' s1 = Inr j"
            "hash (hashtbl s1 (unat j)) = h"
            "addr (hashtbl s1 (unat j)) = of_nat (heap s)"
            "orig = int (length b)"
            "\<forall>s2. mem s2 = mem s1 \<longrightarrow> hh_deserialize ext (heap s) s2 = Inr (OString b)"
            "\<forall>i. hash (hashtbl s i) \<noteq> h \<and> hash (hashtbl s i) \<noteq> 0 \<longrightarrow>
                 hashtbl s1 i = hashtbl s i"
          by blast
        have same: "hashtbl s1 (unat slot) = hashtbl s (unat slot)"
          using j(6) nh nz by simp
        have fr: "same_frame s s1"
          using hh_add_loop_frame [of s "Suc n" ext h "OString b" init_slot slot] Suc.prems
          by simp
        have ns: "next_slot s1 slot = ?slot'"
          using fr by (simp add: next_slot_def hashtbl_size_def same_frame_def)
        have "find_slot_loop (Suc n) h init_slot slot s1 =
                find_slot_loop n h init_slot (next_slot s1 slot) s1"
          by (rule find_slot_loop_step) (simp_all add: same nh nz ns ni)
        then have "find_slot_loop (Suc n) h init_slot slot s1 = Inr j"
          using j(1) ns by simp
        then show ?thesis using j by blast
      qed
    qed
  qed
qed

lemma unat_of_nat_64: "n < 2 ^ 64 \<Longrightarrow> unat (of_nat n :: u64) = n"
  by (simp add: unat_of_nat)

text \<open>
  C1.  For a blob \<open>b\<close> of at most \<open>2 ^ 31 - 1\<close> bytes, when \<open>put(k, b)\<close> returns sizes other
  than the lost-race pair, \<open>get(k)\<close> returns \<open>b\<close>, whether LZ4 made the payload smaller and
  it was stored compressed or not; the second size returned by the put is the length of
  \<open>b\<close>.  LZ4 is assumed to decompress what it compressed, and the heap to lie above the
  first page and below \<open>2 ^ 64\<close>.
\<close>

theorem put_get_roundtrip:
  assumes len: "length b \<le> 2 ^ 31 - 1"
    and put: "fst (hh_add ext k (OString b) s) = Inr (al, orig)"
    and won: "al \<noteq> Min_long"
    and lz4: "lz4_roundtrip ext b"
    and hp: "1 < heap s" "heap s < 2 ^ 64"
  shows "hh_get_and_deserialize ext k (snd (hh_add ext k (OString b) s)) =
           (Inr (OString b), snd (hh_add ext k (OString b) s)) \<and>
         orig = int (length b)"
proof -
  define s1 where "s1 = snd (hh_add ext k (OString b) s)"
  have e: "hh_add ext k (OString b) s = (Inr (al, orig), s1)"
    using put by (simp add: s1_def prod_eq_iff)
  have c: "check_should_exit s = Inr ()"
    using e by (cases "check_should_exit s") (simp_all add: hh_add_def)
  have fr: "same_frame s s1" unfolding s1_def by (rule hh_add_frame)
  have c1: "check_should_exit s1 = Inr ()"
    using c check_should_exit_frame [OF fr] by simp
  let ?slot = "ucast (get_hash k AND (hashtbl_size s - 1)) :: u32"
  have l: "hh_add_loop (unat (hashtbl_size s)) ext (get_hash k) (OString b) ?slot ?slot s =
             (Inr (al, orig), s1)"
    using e c by (simp add: hh_add_def Let_def)
  from hh_add_loop_string [OF l won lz4 hp(1)] obtain j where
    j: "find_slot_loop (unat (hashtbl_size s)) (get_hash k) ?slot ?slot s1 = Inr j"
       "hash (hashtbl s1 (unat j)) = get_hash k"
       "addr (hashtbl s1 (unat j)) = of_nat (heap s)"
       "orig = int (length b)"
       "\<forall>s2. mem s2 = mem s1 \<longrightarrow> hh_deserialize ext (heap s) s2 = Inr (OString b)"
    by blast
  have hs: "hashtbl_size s1 = hashtbl_size s"
    using fr by (simp add: hashtbl_size_def same_frame_def)
  have f: "find_slot k s1 = Inr j"
    using j(1) by (simp add: find_slot_def Let_def hs)
  have "hh_get_and_deserialize ext k s1 = (Inr (OString b), s1)"
    using j(2,3,5) unat_of_nat_64 [OF hp(2)]
    by (simp add: hh_get_and_deserialize_def c1 f)
  then show ?thesis using j(4) by (simp add: s1_def)
qed

lemma lz4_ext0: "lz4_roundtrip ext0 b"
  by (simp add: lz4_roundtrip_def ext0_def)


theorem put_get_roundtrip_witness:
  "length [0, 0, 0, 0 :: byte] \<le> 2 ^ 31 - 1 \<and>
   fst (hh_add ext0 key_one (OString [0, 0, 0, 0]) (init_store 1 4096 1024)) = Inr (1, 4) \<and>
   (1 :: int) \<noteq> Min_long \<and> lz4_roundtrip ext0 [0, 0, 0, 0] \<and>
   fst (hh_get_and_deserialize ext0 key_one
          (snd (hh_add ext0 key_one (OString [0, 0, 0, 0]) (init_store 1 4096 1024)))) =
     Inr (OString [0, 0, 0, 0]) \<and>
   fst (hh_add ext0 key_two (OString [65, 66]) one_entry) = Inr (2, 2) \<and>
   fst (hh_get_and_deserialize ext0 key_two
          (snd (hh_add ext0 key_two (OString [65, 66]) one_entry))) = Inr (OString [65, 66])"
proof -
  have l: "length [0, 0, 0, 0 :: byte] \<le> 2 ^ 31 - 1" "length [65, 66 :: byte] \<le> 2 ^ 31 - 1"
    by simp_all
  have a: "fst (hh_add ext0 key_one (OString [0, 0, 0, 0]) (init_store 1 4096 1024)) = Inr (1, 4)"
    by (simp add: store_eval)
  have b: "fst (hh_add ext0 key_two (OString [65, 66]) one_entry) = Inr (2, 2)"
    by (simp add: store_eval w21 one_entry_fields one_entry_more)
  have h: "1 < heap (init_store 1 4096 1024)" "heap (init_store 1 4096 1024) < 2 ^ 64"
    "1 < heap one_entry" "heap one_entry < 2 ^ 64"
    by (simp_all add: one_entry_fields init_store_def)
  have m: "(1 :: int) \<noteq> Min_long" "(2 :: int) \<noteq> Min_long" by (simp_all add: Min_long_def)
  have g1: "fst (hh_get_and_deserialize ext0 key_one
          (snd (hh_add ext0 key_one (OString [0, 0, 0, 0]) (init_store 1 4096 1024)))) =
     Inr (OString [0, 0, 0, 0])"
    using put_get_roundtrip [OF l(1) a m(1) lz4_ext0 h(1,2)] by simp
  have g2: "fst (hh_get_and_deserialize ext0 key_two
          (snd (hh_add ext0 key_two (OString [65, 66]) one_entry))) = Inr (OString [65, 66])"
    using put_get_roundtrip [OF l(2) b m(2) lz4_ext0 h(3,4)] by simp
  show ?thesis using l(1) a m(1) lz4_ext0 g1 b g2 by blast
qed


subsection \<open>The three answers of a membership test\<close>

text \<open>
  When the process is not asked to exit and the probe of \<^verbatim>\<open>find_slot\<close> ends in a
  slot, \<open>has(k)\<close> answers \<open>-1\<close> (never written) when that slot does not hold the hash of
  \<open>k\<close>, and then its hash is zero; \<open>-2\<close> (removed) when it holds the hash and \<open>addr\<close> is
  \<open>NULL\<close>; \<open>1\<close> (present) when it holds the hash and \<open>addr\<close> is neither \<open>NULL\<close> nor the
  write-in-progress mark; with the mark, and nobody to finish the write, the wait ends in
  the "stuck" failure.  \<^verbatim>\<open>hh_mem_inner\<close> and \<^verbatim>\<open>hh_mem_status\<close> agree.  A key whose hash
  is in no slot is never written, and after \<open>put(k', v); remove(k')\<close> the key \<open>k'\<close> is
  removed.
\<close>

lemma hh_mem_classification:
  assumes "check_should_exit s = Inr ()" and "find_slot k s = Inr slot"
  shows "(hash (hashtbl s (unat slot)) \<noteq> get_hash k \<longrightarrow>
            hash (hashtbl s (unat slot)) = 0 \<and> hh_mem_status k s = (Inr (- 1), s)) \<and>
         (hash (hashtbl s (unat slot)) = get_hash k \<and> addr (hashtbl s (unat slot)) = 0 \<longrightarrow>
            hh_mem_status k s = (Inr (- 2), s)) \<and>
         (hash (hashtbl s (unat slot)) = get_hash k \<and> addr (hashtbl s (unat slot)) \<noteq> 0 \<and>
          addr (hashtbl s (unat slot)) \<noteq> HASHTBL_WRITE_IN_PROGRESS \<longrightarrow>
            hh_mem_status k s = (Inr 1, s)) \<and>
         (hash (hashtbl s (unat slot)) = get_hash k \<and>
          addr (hashtbl s (unat slot)) = HASHTBL_WRITE_IN_PROGRESS \<longrightarrow>
            hh_mem_status k s = (Inl (Failure ''hh_mem busy-wait loop stuck for 60s''), s)) \<and>
         hh_mem_inner k s = hh_mem_status k s \<and>
         ((\<forall>i. hash (hashtbl s i) \<noteq> get_hash k) \<longrightarrow> hh_mem_status k s = (Inr (- 1), s)) \<and>
         (returns (hh_add ext k' data t) \<and> returns (hh_remove k' (snd (hh_add ext k' data t))) \<longrightarrow>
            hh_mem_status k' (snd (hh_remove k' (snd (hh_add ext k' data t)))) =
              (Inr (- 2), snd (hh_remove k' (snd (hh_add ext k' data t)))))"
proof -
  note f = hh_mem_inner_found [OF assms]
  have z: "hash (hashtbl s (unat slot)) \<noteq> get_hash k \<Longrightarrow> hash (hashtbl s (unat slot)) = 0"
    using find_slot_hash [OF assms(2)] by auto
  have w: "HASHTBL_WRITE_IN_PROGRESS \<noteq> 0" by (simp add: HASHTBL_WRITE_IN_PROGRESS_def)
  show ?thesis
    using f z w put_remove_mem [of ext k' data t] unknown_mem [OF assms]
    by (simp add: hh_mem_status_inner)
qed

lemma hh_mem_classification_example:
  "check_should_exit one_entry = Inr () \<and> find_slot key_one one_entry = Inr 1 \<and>
   hh_mem_status key_one one_entry = (Inr 1, one_entry) \<and>
   returns (hh_remove key_one one_entry) \<and>
   fst (hh_mem_status key_one (snd (hh_remove key_one one_entry))) = Inr (- 2) \<and>
   find_slot key_two (snd (hh_remove key_one one_entry)) = Inr 0 \<and>
   fst (hh_mem_status key_two (snd (hh_remove key_one one_entry))) = Inr (- 1)"
proof -
  have c: "check_should_exit one_entry = Inr ()"
    by (simp add: check_should_exit_def one_entry_fields)
  have f: "find_slot key_one one_entry = Inr 1"
    by (simp add: store_eval one_entry_fields)
  have r: "returns (hh_remove key_one one_entry)"
    by (simp add: store_eval one_entry_fields)
  let ?s = "snd (hh_remove key_one one_entry)"
  have c2: "check_should_exit ?s = Inr ()"
    by (simp add: store_eval one_entry_fields one_entry_more)
  have f1: "find_slot key_one ?s = Inr 1"
    by (simp add: store_eval one_entry_fields)
  have f2: "find_slot key_two ?s = Inr 0"
    by (simp add: store_eval one_entry_fields)
  have h: "hash (hashtbl one_entry (unat (1 :: u32))) = get_hash key_one"
    "addr (hashtbl one_entry (unat (1 :: u32))) = 4096"
    by (simp_all add: store_eval one_entry_fields)
  have h1: "hash (hashtbl ?s (unat (1 :: u32))) = get_hash key_one"
    "addr (hashtbl ?s (unat (1 :: u32))) = 0"
    by (simp_all add: store_eval one_entry_fields)
  have h2: "hash (hashtbl ?s (unat (0 :: u32))) \<noteq> get_hash key_two"
    by (simp add: store_eval one_entry_fields)
  have "hh_mem_status key_one one_entry = (Inr 1, one_entry)"
    using hh_mem_classification [OF c f, where ext=ext0 and k'=key_one and data="OString []" and t=one_entry] h by (simp add: HASHTBL_WRITE_IN_PROGRESS_def)
  moreover have "fst (hh_mem_status key_one ?s) = Inr (- 2)"
    using hh_mem_classification [OF c2 f1, where ext=ext0 and k'=key_one and data="OString []" and t=one_entry] h1 by simp
  moreover have "fst (hh_mem_status key_two ?s) = Inr (- 1)"
    using hh_mem_classification [OF c2 f2, where ext=ext0 and k'=key_one and data="OString []" and t=one_entry] h2 by simp
  ultimately show ?thesis using c f r f2 by blast
qed

text \<open>
  The probe walks on after a collision.  In the store of two slots that holds \<open>key_one\<close>
  in slot 1, \<open>key_three\<close> starts at slot 1 as well, finds another hash there and ends in
  the empty slot 0: it is never written, and a put writes it to slot 0, after which both
  keys are present.
\<close>

lemma probing_past_a_collision:
  "find_slot key_three one_entry = Inr 0 \<and>
   fst (hh_mem_status key_three one_entry) = Inr (- 1) \<and>
   returns (hh_add ext0 key_three (OString [68]) one_entry) \<and>
   hashtbl (snd (hh_add ext0 key_three (OString [68]) one_entry)) 0 = \<lparr>hash = 3, addr = 4160\<rparr> \<and>
   hashtbl (snd (hh_add ext0 key_three (OString [68]) one_entry)) (Suc 0) = \<lparr>hash = 1, addr = 4096\<rparr> \<and>
   fst (hh_mem_status key_three (snd (hh_add ext0 key_three (OString [68]) one_entry))) = Inr 1 \<and>
   fst (hh_mem_status key_one (snd (hh_add ext0 key_three (OString [68]) one_entry))) = Inr 1"
  by (simp add: key_three_def hh_mem_status_def store_eval one_entry_fields one_entry_more w21)

text \<open>
  C4 (the code breaks the contract that its comment states).  The comment of
  \<^verbatim>\<open>hh_mem_inner\<close> reads: \<open>-1\<close>, the key "is not present in the hash table at all"; \<open>-2\<close>,
  "the data has been explicitly deleted".  In a fresh store nothing was written and
  nothing was removed, and \<open>has(key_one)\<close> is \<open>-1\<close>.  For a key whose first eight bytes
  are zero the hash is the word that marks an empty slot: \<^verbatim>\<open>find_slot\<close> returns the empty
  slot as the slot of the key, \<^verbatim>\<open>good_hash\<close> holds with a \<open>NULL\<close> \<open>addr\<close>, and the answer for
  this key that was never written is \<open>-2\<close>, removed.
\<close>

theorem hh_mem_status_zero_hash_key:
  "fst (hh_mem_status key_one (init_store 1 4096 1024)) = Inr (- 1) \<and>
   fst (hh_mem_status key_zero (init_store 1 4096 1024)) = Inr (- 2) \<and>
   fst (hh_mem_inner key_zero (init_store 1 4096 1024)) = Inr (- 2)"
  by (simp add: hh_mem_status_inner store_eval)

subsection \<open>Moving needs the gate of removing\<close>

text \<open>
  C10.  With \<open>allow_removes\<close> clear, \<^verbatim>\<open>hh_move\<close> never returns and changes nothing; when
  both probes end in a slot and the caller is the master, what stops it is the failed
  assertion.
\<close>

theorem hh_move_needs_allow_removes:
  assumes "allow_removes s = 0"
  shows "\<not> returns (hh_move key1 key2 s) \<and> snd (hh_move key1 key2 s) = s \<and>
         (find_slot key1 s = Inr slot1 \<and> find_slot key2 s = Inr slot2 \<and>
          my_pid s = master_pid s \<longrightarrow>
            hh_move key1 key2 s = (Inl AssertionFailure, s))"
  using assms
  by (auto simp: hh_move_def returns_def assert_allow_removes_def assert_master_def
      split: sum.splits)

theorem hh_move_needs_allow_removes_witness:
  "allow_removes (one_entry\<lparr>allow_removes := 0\<rparr>) = 0 \<and>
   fst (hh_move key_one key_two (one_entry\<lparr>allow_removes := 0\<rparr>)) = Inl AssertionFailure \<and>
   returns (hh_move key_one key_two one_entry)"
proof -
  let ?s = "one_entry\<lparr>allow_removes := 0\<rparr>"
  have a: "allow_removes ?s = 0" by simp
  have f: "find_slot key_one ?s = Inr 1" "find_slot key_two ?s = Inr 0"
    "my_pid ?s = master_pid ?s"
    by (simp_all add: store_eval one_entry_fields)
  have r: "returns (hh_move key_one key_two one_entry)"
    by (simp add: store_eval one_entry_fields)
  from hh_move_needs_allow_removes [OF a, of key_one key_two 1 0] f a r
  show ?thesis by simp
qed

subsection \<open>The counter of used slots\<close>

text \<open>
  C8 (the code breaks its own assertion).  After \<open>put(key_one, "AB")\<close> the counter and
  the number of slots with a hash agree, and \<^verbatim>\<open>hh_hash_used_slots\<close> returns.  Moving the
  entry to a key whose first eight bytes are zero counts the destination slot, whose hash
  was zero, and then stores the hash 0 in it: the counter is 2, one slot has a hash, and
  the assertion of \<^verbatim>\<open>hh_hash_used_slots\<close> fails.
\<close>

theorem hh_move_to_zero_hash_key:
  "hh_hash_used_slots one_entry = Inr (1, 1) \<and>
   returns (hh_move key_one key_zero one_entry) \<and>
   hcounter (snd (hh_move key_one key_zero one_entry)) = 2 \<and>
   hh_hash_used_slots (snd (hh_move key_one key_zero one_entry)) = Inl AssertionFailure"
  by (simp add: store_eval one_entry_fields)

subsection \<open>The collection predicate\<close>

lemma bit_length_0: "bit_length 0 = 0" by simp

lemma bit_length_pos: "0 < n \<Longrightarrow> bit_length n = Suc (bit_length (n div 2))"
  by (subst bit_length.simps) simp

declare bit_length.simps [simp del]

lemma bit_length_less: "n < 2 ^ bit_length n"
proof (induction n rule: less_induct)
  case (less n)
  show ?case
  proof (cases "n = 0")
    case True
    then show ?thesis by (simp add: bit_length_0)
  next
    case False
    then have "n div 2 < 2 ^ bit_length (n div 2)" using less.IH [of "n div 2"] by simp
    then show ?thesis using False by (simp add: bit_length_pos)
  qed
qed

lemma bit_length_le: "n < 2 ^ k \<Longrightarrow> bit_length n \<le> k"
proof (induction k arbitrary: n)
  case 0
  then show ?case by (simp add: bit_length_0)
next
  case (Suc k)
  show ?case
  proof (cases "n = 0")
    case True
    then show ?thesis by (simp add: bit_length_0)
  next
    case False
    have "n div 2 < 2 ^ k" using Suc.prems by simp
    then show ?thesis using Suc.IH [of "n div 2"] False by (simp add: bit_length_pos)
  qed
qed

lemma bit_length_ge: "0 < n \<Longrightarrow> 2 ^ (bit_length n - 1) \<le> n"
proof (induction n rule: less_induct)
  case (less n)
  show ?case
  proof (cases "n div 2 = 0")
    case True
    then show ?thesis using less.prems by (simp add: bit_length_pos bit_length_0)
  next
    case False
    then have i: "2 ^ (bit_length (n div 2) - 1) \<le> n div 2"
      using less.IH [of "n div 2"] less.prems by simp
    have "0 < bit_length (n div 2)" using False by (simp add: bit_length_pos)
    then obtain j where j: "bit_length (n div 2) = Suc j" by (cases "bit_length (n div 2)") auto
    have b: "bit_length n = Suc (Suc j)" using less.prems j by (simp add: bit_length_pos)
    have "(2 :: nat) ^ Suc j = 2 * 2 ^ j" by simp
    also have "\<dots> \<le> 2 * (n div 2)" using i j by simp
    also have "\<dots> \<le> n" by simp
    finally show ?thesis by (simp only: b diff_Suc_1)
  qed
qed

lemma rne_zero: "round_nearest_even n 0 = n"
  by (simp add: round_nearest_even_def)

lemma rne_bounds:
  "2 * (round_nearest_even n e * 2 ^ e) \<le> 2 * n + 2 ^ e"
  "2 * n \<le> 2 * (round_nearest_even n e * 2 ^ e) + 2 ^ e"
proof -
  define q where "q = n div 2 ^ e"
  define r where "r = n mod 2 ^ e"
  define P where "P = (2 :: nat) ^ e"
  have n: "n = q * P + r" unfolding q_def r_def P_def by (rule div_mult_mod_eq [symmetric])
  have r: "r < P" by (simp add: r_def P_def)
  have m: "round_nearest_even n e = (if 2 * r > P then q + 1 else if 2 * r = P \<and> odd q then q + 1 else q)"
    by (simp add: round_nearest_even_def Let_def q_def r_def P_def)
  have s: "(q + 1) * P = q * P + P" by (simp add: algebra_simps)
  show "2 * (round_nearest_even n e * 2 ^ e) \<le> 2 * n + 2 ^ e"
    unfolding m P_def [symmetric] using n r s by (auto simp: algebra_simps)
  show "2 * n \<le> 2 * (round_nearest_even n e * 2 ^ e) + 2 ^ e"
    unfolding m P_def [symmetric] using n r s by (auto simp: algebra_simps)
qed

lemma rne_le: "n < 2 ^ (e + k) \<Longrightarrow> round_nearest_even n e \<le> 2 ^ k"
proof -
  assume "n < 2 ^ (e + k)"
  then have "n div 2 ^ e < 2 ^ k"
    by (simp add: less_mult_imp_div_less power_add mult.commute)
  then show ?thesis by (simp add: round_nearest_even_def Let_def)
qed

lemma float_round_spec:
  "\<exists>m e. float_round n x = \<lparr>mant = m, expo = x + int e\<rparr> \<and> m \<le> 16777216 \<and>
     (m * 2 ^ e) * 16777216 \<le> n * 16777217 \<and> n * 16777215 \<le> (m * 2 ^ e) * 16777216 \<and>
     (n < 16777216 \<longrightarrow> e = 0 \<and> m = n)"
proof (cases "bit_length n \<le> 24")
  case True
  then have e: "bit_length n - 24 = 0" by simp
  have "n < 2 ^ bit_length n" by (rule bit_length_less)
  also have "\<dots> \<le> 2 ^ 24" using True by (rule power_increasing) simp
  finally have "n < 16777216" by simp
  then show ?thesis
    by (simp add: float_round_def Let_def e rne_zero)
next
  case False
  define e where "e = bit_length n - 24"
  define m where "m = round_nearest_even n e"
  define P where "P = (2 :: nat) ^ e"
  have b: "bit_length n = e + 24" "e + 24 - 1 = e + 23" using False by (simp_all add: e_def)
  have pos: "0 < n" using False by (cases "n = 0") (simp_all add: bit_length_0)
  have up: "n < 2 ^ (e + 24)" using bit_length_less [of n] by (simp add: b)
  have lo: "P * 8388608 \<le> n" using bit_length_ge [OF pos] by (simp add: b power_add P_def)
  have m24: "m \<le> 16777216" using rne_le [OF up] by (simp add: m_def)
  have ge: "\<not> n < 16777216"
  proof
    assume "n < 16777216"
    then have "n < 2 ^ 24" by simp
    from bit_length_le [OF this] False show False by simp
  qed
  note rne_bounds [of n e, folded m_def P_def]
  then show ?thesis
    using lo m24 ge by (intro exI [of _ m] exI [of _ e]) (simp add: float_round_def Let_def e_def [symmetric] m_def [symmetric] P_def [symmetric])
qed

lemma size_t_of_float_div:
  "size_t_of_float \<lparr>mant = m, expo = int a - int k\<rparr> =
     (if (m * 2 ^ a) div 2 ^ k < 2 ^ 64 then Some (of_nat ((m * 2 ^ a) div 2 ^ k)) else None)"
proof (cases "k \<le> a")
  case True
  then have p: "(2 :: nat) ^ a = 2 ^ (a - k) * 2 ^ k" by (simp flip: power_add)
  have "(m * 2 ^ a) div 2 ^ k = m * 2 ^ (a - k)"
    unfolding p by (simp flip: mult.assoc)
  moreover have "nat (int a - int k) = a - k" by simp
  ultimately show ?thesis using True by (simp add: size_t_of_float_def Let_def)
next
  case False
  then have p: "(2 :: nat) ^ k = 2 ^ a * 2 ^ (k - a)" by (simp flip: power_add)
  have "(m * 2 ^ a) div 2 ^ k = m div 2 ^ (k - a)"
    unfolding p by (simp add: mult.commute [of m])
  moreover have "nat (- (int a - int k)) = k - a" by simp
  ultimately show ?thesis using False by (simp add: size_t_of_float_def Let_def)
qed

text \<open>The product of a constant with a converted size, then truncated.\<close>

lemma scaled_product:
  assumes "r < 2 ^ 64"
  shows "\<exists>R W. 
     size_t_of_float (float_mul \<lparr>mant = c, expo = int a - int k\<rparr> (float_round r 0)) =
       (if (W * 2 ^ a) div 2 ^ k < 2 ^ 64 then Some (of_nat ((W * 2 ^ a) div 2 ^ k)) else None) \<and>
     R * 16777216 \<le> r * 16777217 \<and> r * 16777215 \<le> R * 16777216 \<and>
     W * 16777216 \<le> c * R * 16777217 \<and> c * R * 16777215 \<le> W * 16777216 \<and>
     (r < 16777216 \<longrightarrow> R = r) \<and> (c * R < 16777216 \<longrightarrow> W = c * R)"
proof -
  obtain m1 e1 where 1: "float_round r 0 = \<lparr>mant = m1, expo = 0 + int e1\<rparr>"
    "(m1 * 2 ^ e1) * 16777216 \<le> r * 16777217" "r * 16777215 \<le> (m1 * 2 ^ e1) * 16777216"
    "r < 16777216 \<longrightarrow> e1 = 0 \<and> m1 = r"
    using float_round_spec [of r 0] by blast
  obtain m2 e2 where 2: "float_round (c * m1) (int a - int k + int e1) =
       \<lparr>mant = m2, expo = int a - int k + int e1 + int e2\<rparr>"
    "(m2 * 2 ^ e2) * 16777216 \<le> (c * m1) * 16777217" "(c * m1) * 16777215 \<le> (m2 * 2 ^ e2) * 16777216"
    "c * m1 < 16777216 \<longrightarrow> e2 = 0 \<and> m2 = c * m1"
    using float_round_spec [of "c * m1" "int a - int k + int e1"] by blast
  define R where "R = m1 * 2 ^ e1"
  define W where "W = m2 * 2 ^ e2 * 2 ^ e1"
  have x: "int a - int k + int e1 + int e2 = int (e2 + e1 + a) - int k" by simp
  have f: "float_mul \<lparr>mant = c, expo = int a - int k\<rparr> (float_round r 0) =
      \<lparr>mant = m2, expo = int (e2 + e1 + a) - int k\<rparr>"
    by (simp add: float_mul_def 1(1) 2(1))
  have w: "m2 * 2 ^ (e2 + e1 + a) = W * 2 ^ a" by (simp add: W_def power_add)
  have a1: "W * 16777216 \<le> c * R * 16777217"
    using mult_le_mono1 [OF 2(2), of "2 ^ e1"] by (simp add: W_def R_def algebra_simps)
  have a2: "c * R * 16777215 \<le> W * 16777216"
    using mult_le_mono1 [OF 2(3), of "2 ^ e1"] by (simp add: W_def R_def algebra_simps)
  have a3: "r < 16777216 \<longrightarrow> R = r" using 1(4) by (auto simp: R_def)
  have le: "c * m1 \<le> c * R" by (simp add: R_def)
  have a4: "c * R < 16777216 \<longrightarrow> W = c * R"
  proof
    assume l: "c * R < 16777216"
    have "c * m1 < 16777216" by (rule le_less_trans [OF le l])
    then have "e2 = 0" "m2 = c * m1" using 2(4) by auto
    then show "W = c * R" by (simp add: W_def R_def)
  qed
  show ?thesis
    unfolding f size_t_of_float_div w
    using 1(2,3) a1 a2 a3 a4 unfolding R_def [symmetric]
    by (intro exI [of _ R] exI [of _ W]) simp
qed

lemma word_ge_of_nat: "t < 2 ^ 64 \<Longrightarrow> ((of_nat t :: u64) \<le> w) = (t \<le> unat w)"
  by (simp add: word_le_nat_alt unat_of_nat)

lemma should_collect_normal:
  assumes "reachable_bytes s < 2 ^ 62"
  shows "\<exists>b. should_collect False s = Inr b \<and>
     (b \<longrightarrow> 2 * reachable_bytes s * 4194303 \<le> used_bytes s * 4194304) \<and>
     (\<not> b \<longrightarrow> used_bytes s * 4194304 < 2 * reachable_bytes s * 4194305) \<and>
     (reachable_bytes s < 2 ^ 24 \<longrightarrow> b = (2 * reachable_bytes s \<le> used_bytes s))"
proof -
  define r where "r = reachable_bytes s"
  define u where "u = used_bytes s"
  have r64: "r < 2 ^ 64" "r < 4611686018427387904" using assms by (simp_all add: r_def)
  obtain R W where p:
    "size_t_of_float (float_mul \<lparr>mant = 1, expo = int 1 - int 0\<rparr> (float_round r 0)) =
       (if (W * 2 ^ 1) div 2 ^ 0 < 2 ^ 64 then Some (of_nat ((W * 2 ^ 1) div 2 ^ 0)) else None)"
    "R * 16777216 \<le> r * 16777217" "r * 16777215 \<le> R * 16777216"
    "W * 16777216 \<le> 1 * R * 16777217" "1 * R * 16777215 \<le> W * 16777216"
    "r < 16777216 \<longrightarrow> R = r" "1 * R < 16777216 \<longrightarrow> W = 1 * R"
    using scaled_product [OF r64(1), of 1 1 0] by blast
  define T where "T = W * 2"
  have t: "T < 2 ^ 64" using p(2,4) r64(2) by (simp add: T_def)
  have st: "size_t_of_float (float_mul float_2_0
      (float_of_size_t (used_heap_size s - get_wasted_heap_size s))) = Some (of_nat T)"
    using p(1) t by (simp add: float_2_0_def float_of_size_t_def r_def reachable_bytes_def T_def)
  have sc: "should_collect False s = Inr (T \<le> u)"
    unfolding should_collect_def Let_def
    using st word_ge_of_nat [OF t, of "used_heap_size s"] by (simp add: u_def used_bytes_def)
  have 1: "T \<le> u \<longrightarrow> 2 * r * 4194303 \<le> u * 4194304" using p(3,5) by (simp add: T_def)
  have 2: "\<not> T \<le> u \<longrightarrow> u * 4194304 < 2 * r * 4194305" using p(2,4) by (simp add: T_def)
  have 3: "r < 2 ^ 24 \<longrightarrow> (T \<le> u) = (2 * r \<le> u)" using p(6,7) by (auto simp: T_def)
  show ?thesis unfolding r_def [symmetric] u_def [symmetric] sc using 1 2 3 by simp
qed

lemma should_collect_aggressive:
  assumes "reachable_bytes s < 2 ^ 62"
  shows "\<exists>b. should_collect True s = Inr b \<and>
     (b \<longrightarrow> 6 * reachable_bytes s * 4194303 \<le> 5 * (used_bytes s + 1) * 4194304) \<and>
     (\<not> b \<longrightarrow> 5 * used_bytes s * 4194304 < 6 * reachable_bytes s * 4194305)"
proof -
  define r where "r = reachable_bytes s"
  define u where "u = used_bytes s"
  have r64: "r < 2 ^ 64" "r < 4611686018427387904" using assms by (simp_all add: r_def)
  obtain R W where p:
    "size_t_of_float (float_mul \<lparr>mant = 10066330, expo = int 0 - int 23\<rparr> (float_round r 0)) =
       (if (W * 2 ^ 0) div 2 ^ 23 < 2 ^ 64 then Some (of_nat ((W * 2 ^ 0) div 2 ^ 23)) else None)"
    "R * 16777216 \<le> r * 16777217" "r * 16777215 \<le> R * 16777216"
    "W * 16777216 \<le> 10066330 * R * 16777217" "10066330 * R * 16777215 \<le> W * 16777216"
    using scaled_product [OF r64(1), of 10066330 0 23] by blast
  define T where "T = W div 8388608"
  have T: "T * 8388608 \<le> W" "W < (T + 1) * 8388608"
    unfolding T_def using dividend_less_div_times [of 8388608 W] by simp_all
  have t: "T < 2 ^ 64" using p(2,4) r64(2) T(1) by simp
  have st: "size_t_of_float (float_mul float_1_2
      (float_of_size_t (used_heap_size s - get_wasted_heap_size s))) = Some (of_nat T)"
    using p(1) t by (simp add: float_1_2_def float_of_size_t_def r_def reachable_bytes_def T_def)
  have sc: "should_collect True s = Inr (T \<le> u)"
    unfolding should_collect_def Let_def
    using st word_ge_of_nat [OF t, of "used_heap_size s"] by (simp add: u_def used_bytes_def)
  have 1: "T \<le> u \<longrightarrow> 6 * r * 4194303 \<le> 5 * (u + 1) * 4194304" using p(3,5) T(2) by simp
  have 2: "\<not> T \<le> u \<longrightarrow> 5 * u * 4194304 < 6 * r * 4194305" using p(2,4) T(1) by simp
  show ?thesis unfolding r_def [symmetric] u_def [symmetric] sc using 1 2 by simp
qed

lemmas float_eval = should_collect_def used_heap_size_def get_wasted_heap_size_def
  float_of_size_t_def float_mul_def float_round_def round_nearest_even_def size_t_of_float_def
  float_1_2_def float_2_0_def bit_length_pos bit_length_0 Let_def used_bytes_def
  reachable_bytes_def store_of_sizes_def init_store_def word_le_nat_alt


text \<open>
  C7 (amended).  \<^verbatim>\<open>should_collect\<close> does not compare \<open>used\<close> with the exact product
  \<open>factor * reachable\<close>: \<open>reachable\<close> is rounded to a \<^verbatim>\<open>float\<close>, multiplied by \<open>2\<close> or by
  the \<^verbatim>\<open>float\<close> nearest to \<open>1.2\<close>, the product is rounded again and its fraction dropped.
  For \<open>reachable\<close> below \<open>2 ^ 62\<close> the call returns, and its answer is that of the exact
  comparison outside a narrow band around the threshold: when it answers true,
  \<open>used\<close> (\<open>used + 1\<close> with the factor 1.2) is at least \<open>factor * reachable * (1 - 2 ^ -22)\<close>;
  when it answers false, \<open>used\<close> is below \<open>factor * reachable * (1 + 2 ^ -22)\<close>.  With the
  factor 2 and \<open>reachable\<close> below \<open>2 ^ 24\<close>, where no rounding happens, it answers true
  exactly when \<open>used \<ge> 2 * reachable\<close>.
\<close>

theorem should_collect_single_precision:
  assumes "reachable_bytes s < 2 ^ 62"
  shows "(\<exists>b. should_collect False s = Inr b \<and>
            (b \<longrightarrow> 2 * reachable_bytes s * 4194303 \<le> used_bytes s * 4194304) \<and>
            (\<not> b \<longrightarrow> used_bytes s * 4194304 < 2 * reachable_bytes s * 4194305) \<and>
            (reachable_bytes s < 2 ^ 24 \<longrightarrow> b = (2 * reachable_bytes s \<le> used_bytes s))) \<and>
         (\<exists>b. should_collect True s = Inr b \<and>
            (b \<longrightarrow> 6 * reachable_bytes s * 4194303 \<le> 5 * (used_bytes s + 1) * 4194304) \<and>
            (\<not> b \<longrightarrow> 5 * used_bytes s * 4194304 < 6 * reachable_bytes s * 4194305))"
  using should_collect_normal [OF assms] should_collect_aggressive [OF assms] by (rule conjI)

text \<open>
  With 128 bytes in use and 64 of them wasted both factors answer true; with nothing
  wasted the factor 2 answers false.
\<close>

theorem should_collect_single_precision_witness:
  "reachable_bytes (store_of_sizes 128 64) < 2 ^ 62 \<and>
   should_collect False (store_of_sizes 128 64) = Inr True \<and>
   should_collect True (store_of_sizes 128 64) = Inr True \<and>
   reachable_bytes (store_of_sizes 128 0) < 2 ^ 62 \<and>
   should_collect False (store_of_sizes 128 0) = Inr False"
proof -
  have r: "reachable_bytes (store_of_sizes 128 64) = 64" "used_bytes (store_of_sizes 128 64) = 128"
    "reachable_bytes (store_of_sizes 128 0) = 128" "used_bytes (store_of_sizes 128 0) = 128"
    by (simp_all add: used_bytes_def reachable_bytes_def store_of_sizes_def init_store_def
        used_heap_size_def get_wasted_heap_size_def)
  have a: "reachable_bytes (store_of_sizes 128 64) < 2 ^ 62"
    "reachable_bytes (store_of_sizes 128 0) < 2 ^ 62" by (simp_all add: r)
  from should_collect_single_precision [OF a(1)] obtain b c where
    "should_collect False (store_of_sizes 128 64) = Inr b" "b = True"
    "should_collect True (store_of_sizes 128 64) = Inr c" "c = True"
    by (auto simp: r)
  moreover from should_collect_single_precision [OF a(2)] obtain d where
    "should_collect False (store_of_sizes 128 0) = Inr d" "d = False"
    by (auto simp: r)
  ultimately show ?thesis using a by simp
qed

text \<open>
  The claim as worded fails in both directions.  With 12583296 bytes in use and 2097216
  wasted, \<open>1.2 * reachable\<close> is exactly \<open>used\<close>, but the single-precision product is
  12583297 and the answer is false.  With \<open>2 ^ 31\<close> bytes in use and \<open>2 ^ 30 - 64\<close>
  wasted, \<open>reachable = 2 ^ 30 + 64\<close> is rounded to \<open>2 ^ 30\<close>, and the answer with the
  factor 2 is true although \<open>used < 2 * reachable\<close>.
\<close>

theorem should_collect_not_exact_counterexample:
  "should_collect True (store_of_sizes 12583296 2097216) = Inr False \<and>
   6 * reachable_bytes (store_of_sizes 12583296 2097216) \<le>
     5 * used_bytes (store_of_sizes 12583296 2097216) \<and>
   should_collect False (store_of_sizes 2147483648 1073741760) = Inr True \<and>
   used_bytes (store_of_sizes 2147483648 1073741760) <
     2 * reachable_bytes (store_of_sizes 2147483648 1073741760)"
  by (simp add: float_eval)

section \<open>Properties of the collector\<close>

subsection \<open>Sizes of entries and pointers to slots\<close>








subsection \<open>Bytes that a store or a move leaves alone\<close>






subsection \<open>Pointers to the addr fields\<close>




subsection \<open>Entries that tile the heap\<close>





subsection \<open>The second pass\<close>







subsection \<open>The first pass\<close>


subsection \<open>A collection that runs\<close>















subsection \<open>Two collections, one of which does nothing\<close>




















end
